theory Spec2Isabelle
  imports Main "HOL-Library.Multiset"
begin

section \<open>Data model\<close>

text \<open>
  The solver of \<^verbatim>\<open>src/edmonds.cc\<close> works on \<^verbatim>\<open>int\<close> throughout: vertex numbers,
  edge indices, the \<^verbatim>\<open>-1\<close> sentinels and the weights. The embedding uses HOL's \<open>int\<close> for
  all of them. Vertex numbers, indices and counters never leave the range of the vertex
  count and of the length of the edge list. Weights do: the addition of line 89 and the
  subtraction of line 121 are 32-bit operations, and the model reduces their results to the
  range of \<^verbatim>\<open>int\<close> as the two's complement machine does. The overflow is undefined
  behaviour in the source and section 4.1 of the specification leaves it outside the
  contract; the statements below that depend on the value of a weight are made for weights
  in the range \<open>weights_fit\<close>.
\<close>

definition wrap32 :: "int \<Rightarrow> int" where
  "wrap32 x = (x + 2147483648) mod 4294967296 - 2147483648"

text \<open>
  \<^verbatim>\<open>struct Edge { int from, to, weight; };\<close>
\<close>

datatype Edge = Edge (efrom: int) (eto: int) (eweight: int)

text \<open>
  A \<^verbatim>\<open>std::vector\<close> is a list. An access outside the vector is undefined behaviour in
  the source; the model makes it the failure \<open>OutOfBounds\<close>, so that every read and write
  is a checked one. A vector constructed with a negative size is the failure
  \<open>LengthError\<close>.
\<close>

datatype error = OutOfBounds | LengthError

datatype 'a result = Failure error | Ok 'a

definition vec_at :: "'a list \<Rightarrow> int \<Rightarrow> 'a result" where
  "vec_at xs i = (if 0 \<le> i \<and> i < int (length xs) then Ok (xs ! nat i) else Failure OutOfBounds)"

definition vec_put :: "'a list \<Rightarrow> int \<Rightarrow> 'a \<Rightarrow> 'a list result" where
  "vec_put xs i v = (if 0 \<le> i \<and> i < int (length xs) then Ok (xs[nat i := v]) else Failure OutOfBounds)"

definition rbind :: "'a result \<Rightarrow> ('a \<Rightarrow> 'b result) \<Rightarrow> 'b result" where
  "rbind m f = (case m of Failure e \<Rightarrow> Failure e | Ok x \<Rightarrow> f x)"

text \<open>
  A loop that need not terminate returns an \<open>option\<close>: \<open>None\<close> is a run that never
  returns, \<open>Some (Failure e)\<close> a run that leaves the vectors, \<open>Some (Ok x)\<close> a run that
  returns \<open>x\<close>.
\<close>

definition obind :: "'a result option \<Rightarrow> ('a \<Rightarrow> 'b result option) \<Rightarrow> 'b result option" where
  "obind m f = (case m of None \<Rightarrow> None | Some (Failure e) \<Rightarrow> Some (Failure e) | Some (Ok x) \<Rightarrow> f x)"

text \<open>The \<^verbatim>\<open>for\<close> loops: the body runs once for each element, in order.\<close>

fun for_each :: "'i list \<Rightarrow> ('i \<Rightarrow> 's \<Rightarrow> 's result) \<Rightarrow> 's \<Rightarrow> 's result" where
  "for_each [] body s = Ok s"
| "for_each (i # rest) body s = rbind (body i s) (for_each rest body)"

fun for_each_opt :: "'i list \<Rightarrow> ('i \<Rightarrow> 's \<Rightarrow> 's result option) \<Rightarrow> 's \<Rightarrow> 's result option" where
  "for_each_opt [] body s = Some (Ok s)"
| "for_each_opt (i # rest) body s = obind (body i s) (for_each_opt rest body)"

section \<open>The phases of one iteration of \<^verbatim>\<open>chuLiuEdmonds\<close>\<close>

text \<open>Lines 39-41: \<^verbatim>\<open>for (int i = 0; i < n; i++) inEdge[i] = -1;\<close>\<close>

definition reset_inEdge :: "int \<Rightarrow> int list \<Rightarrow> int list result" where
  "reset_inEdge n inEdge = for_each [0..n - 1] (\<lambda>i ie. vec_put ie i (- 1)) inEdge"

text \<open>
  Lines 43-48, the body for the edge at index \<open>k\<close> (\<^verbatim>\<open>&edge - &edges[0]\<close>). The
  \<^verbatim>\<open>||\<close> of the source does not read \<^verbatim>\<open>edges[inEdge[edge.to]]\<close> when
  \<^verbatim>\<open>inEdge[edge.to] == -1\<close>.
\<close>

definition select_step :: "Edge list \<Rightarrow> int \<times> Edge \<Rightarrow> int list \<Rightarrow> int list result" where
  "select_step edges ke inEdge = (case ke of (k, edge) \<Rightarrow>
     if efrom edge = eto edge then Ok inEdge
     else rbind (vec_at inEdge (eto edge)) (\<lambda>cur.
          rbind (if cur = - 1 then Ok True
                 else rbind (vec_at edges cur) (\<lambda>best. Ok (eweight edge < eweight best))) (\<lambda>better.
          if better then vec_put inEdge (eto edge) k else Ok inEdge)))"

definition select_inEdge :: "Edge list \<Rightarrow> int list \<Rightarrow> int list result" where
  "select_inEdge edges inEdge =
     for_each (zip [0..int (length edges) - 1] edges) (select_step edges) inEdge"

text \<open>
  Lines 50-52: \<^verbatim>\<open>if (i != root && inEdge[i] == -1) return -1;\<close> for \<open>i\<close> from \<open>0\<close>.
  The result \<open>True\<close> is the early return.
\<close>

fun missing_inEdge :: "int list \<Rightarrow> int \<Rightarrow> int list \<Rightarrow> bool result" where
  "missing_inEdge [] root inEdge = Ok False"
| "missing_inEdge (i # rest) root inEdge =
     (if i \<noteq> root
      then rbind (vec_at inEdge i) (\<lambda>x. if x = - 1 then Ok True else missing_inEdge rest root inEdge)
      else missing_inEdge rest root inEdge)"

text \<open>\<^verbatim>\<open>edges[inEdge[u]].from\<close>\<close>

definition selected_from :: "Edge list \<Rightarrow> int list \<Rightarrow> int \<Rightarrow> int result" where
  "selected_from edges inEdge u =
     rbind (vec_at inEdge u) (\<lambda>k. rbind (vec_at edges k) (\<lambda>e. Ok (efrom e)))"

text \<open>\<^verbatim>\<open>edges[inEdge[u]].weight\<close>\<close>

definition selected_weight :: "Edge list \<Rightarrow> int list \<Rightarrow> int \<Rightarrow> int result" where
  "selected_weight edges inEdge u =
     rbind (vec_at inEdge u) (\<lambda>k. rbind (vec_at edges k) (\<lambda>e. Ok (eweight e)))"

text \<open>
  Lines 62-69. \<^verbatim>\<open>hasCycle\<close> is false whenever the condition of the \<^verbatim>\<open>while\<close> is
  evaluated, since the only assignment to it is followed by \<^verbatim>\<open>break\<close>. The loop
  returns the vector \<^verbatim>\<open>visited\<close>, the vertex \<^verbatim>\<open>u\<close> and \<^verbatim>\<open>hasCycle\<close>.
\<close>

partial_function (option) walk_chain ::
  "Edge list \<Rightarrow> int list \<Rightarrow> int list \<Rightarrow> int \<Rightarrow> (int list \<times> int \<times> bool) result option" where
  "walk_chain edges inEdge visited u =
     (case vec_at visited u of Failure e \<Rightarrow> Some (Failure e) | Ok vu \<Rightarrow>
        if vu = 2 then Some (Ok (visited, u, False))
        else if vu = 1 then Some (Ok (visited, u, True))
        else (case vec_put visited u 1 of Failure e \<Rightarrow> Some (Failure e) | Ok visited' \<Rightarrow>
              case selected_from edges inEdge u of Failure e \<Rightarrow> Some (Failure e) | Ok u' \<Rightarrow>
                walk_chain edges inEdge visited' u'))"

text \<open>
  Lines 73-77: \<^verbatim>\<open>do { cycle[v] = cycleId; v = edges[inEdge[v]].from; } while (v != u);\<close>
\<close>

partial_function (option) mark_cycle ::
  "Edge list \<Rightarrow> int list \<Rightarrow> int \<Rightarrow> int \<Rightarrow> int list \<Rightarrow> int \<Rightarrow> int list result option" where
  "mark_cycle edges inEdge cycleId u cycle v =
     (case vec_put cycle v cycleId of Failure e \<Rightarrow> Some (Failure e) | Ok cycle' \<Rightarrow>
      case selected_from edges inEdge v of Failure e \<Rightarrow> Some (Failure e) | Ok v' \<Rightarrow>
        if v' \<noteq> u then mark_cycle edges inEdge cycleId u cycle' v' else Some (Ok cycle'))"

text \<open>
  Lines 79-83: \<^verbatim>\<open>while (visited[u2] != 2) { visited[u2] = 2; u2 = edges[inEdge[u2]].from; }\<close>
\<close>

partial_function (option) settle_chain ::
  "Edge list \<Rightarrow> int list \<Rightarrow> int list \<Rightarrow> int \<Rightarrow> int list result option" where
  "settle_chain edges inEdge visited u2 =
     (case vec_at visited u2 of Failure e \<Rightarrow> Some (Failure e) | Ok vu \<Rightarrow>
        if vu \<noteq> 2
        then (case vec_put visited u2 2 of Failure e \<Rightarrow> Some (Failure e) | Ok visited' \<Rightarrow>
              case selected_from edges inEdge u2 of Failure e \<Rightarrow> Some (Failure e) | Ok u' \<Rightarrow>
                settle_chain edges inEdge visited' u')
        else Some (Ok visited))"

declare walk_chain.simps [code]
declare mark_cycle.simps [code]
declare settle_chain.simps [code]

text \<open>
  Lines 59-84, the body of the detection loop for the vertex \<open>i\<close>, on the state
  (\<^verbatim>\<open>cycle\<close>, \<^verbatim>\<open>visited\<close>, \<^verbatim>\<open>cycleCount\<close>). The new cycle gets the id
  \<^verbatim>\<open>cycleCount - 1\<close> after the increment, the old \<^verbatim>\<open>cycleCount\<close>.
\<close>

definition detect_from ::
  "Edge list \<Rightarrow> int list \<Rightarrow> int \<Rightarrow> int list \<times> int list \<times> int \<Rightarrow> (int list \<times> int list \<times> int) result option" where
  "detect_from edges inEdge i st = (case st of (cycle, visited, cycleCount) \<Rightarrow>
     obind (Some (vec_at visited i)) (\<lambda>vi.
       if vi = 0 then
         obind (walk_chain edges inEdge visited i) (\<lambda>(visited1, u, hasCycle).
         obind (if hasCycle
                then obind (mark_cycle edges inEdge cycleCount u cycle u)
                       (\<lambda>cycle1. Some (Ok (cycle1, cycleCount + 1)))
                else Some (Ok (cycle, cycleCount))) (\<lambda>(cycle1, cycleCount1).
         obind (settle_chain edges inEdge visited1 i) (\<lambda>visited2.
         Some (Ok (cycle1, visited2, cycleCount1)))))
       else Some (Ok st)))"

text \<open>
  Lines 54-85: \<^verbatim>\<open>cycleCount = 0\<close>, the two \<^verbatim>\<open>fill\<close>s (over the whole vectors),
  \<^verbatim>\<open>visited[root] = 2\<close> and the detection loop.
\<close>

definition detect_cycles ::
  "int \<Rightarrow> int \<Rightarrow> Edge list \<Rightarrow> int list \<Rightarrow> int list \<Rightarrow> int list \<Rightarrow> (int list \<times> int list \<times> int) result option" where
  "detect_cycles n root edges inEdge cycle visited =
     obind (Some (vec_put (replicate (length visited) 0) root 2)) (\<lambda>visited0.
       for_each_opt [0..n - 1] (detect_from edges inEdge)
         (replicate (length cycle) (- 1), visited0, 0))"

text \<open>
  Lines 87-91: \<^verbatim>\<open>if (i != root && inEdge[i] != -1) minWeight += edges[inEdge[i]].weight;\<close>,
  an addition of \<^verbatim>\<open>int\<close>.
\<close>

definition accumulate_step :: "int \<Rightarrow> Edge list \<Rightarrow> int list \<Rightarrow> int \<Rightarrow> int \<Rightarrow> int result" where
  "accumulate_step root edges inEdge i minWeight =
     (if i \<noteq> root
      then rbind (vec_at inEdge i) (\<lambda>k.
             if k \<noteq> - 1 then rbind (vec_at edges k) (\<lambda>e. Ok (wrap32 (minWeight + eweight e)))
             else Ok minWeight)
      else Ok minWeight)"

definition accumulate :: "int \<Rightarrow> int \<Rightarrow> Edge list \<Rightarrow> int list \<Rightarrow> int \<Rightarrow> int result" where
  "accumulate n root edges inEdge minWeight =
     for_each [0..n - 1] (accumulate_step root edges inEdge) minWeight"

text \<open>
  Lines 105-108:
  \<^verbatim>\<open>while (current != i) { id[current] = numNodes; current = edges[inEdge[current]].from; }\<close>
\<close>

partial_function (option) label_cycle ::
  "Edge list \<Rightarrow> int list \<Rightarrow> int \<Rightarrow> int \<Rightarrow> int list \<Rightarrow> int \<Rightarrow> int list result option" where
  "label_cycle edges inEdge i numNodes ids current =
     (if current \<noteq> i
      then (case vec_put ids current numNodes of Failure e \<Rightarrow> Some (Failure e) | Ok ids' \<Rightarrow>
            case selected_from edges inEdge current of Failure e \<Rightarrow> Some (Failure e) | Ok c' \<Rightarrow>
              label_cycle edges inEdge i numNodes ids' c')
      else Some (Ok ids))"

declare label_cycle.simps [code]

text \<open>
  Lines 101-112, the body of the renumbering loop for the vertex \<open>i\<close>, on the state
  (\<^verbatim>\<open>id\<close>, \<^verbatim>\<open>numNodes\<close>).
\<close>

definition assign_id ::
  "Edge list \<Rightarrow> int list \<Rightarrow> int list \<Rightarrow> int \<Rightarrow> int list \<times> int \<Rightarrow> (int list \<times> int) result option" where
  "assign_id edges inEdge cycle i st = (case st of (ids, numNodes) \<Rightarrow>
     obind (Some (vec_at cycle i)) (\<lambda>c.
       if c \<noteq> - 1 then
         obind (Some (vec_at ids i)) (\<lambda>x.
           if x = 0 then
             obind (Some (vec_put ids i (numNodes + 1))) (\<lambda>ids1.
             obind (Some (selected_from edges inEdge i)) (\<lambda>current.
             obind (label_cycle edges inEdge i (numNodes + 1) ids1 current) (\<lambda>ids2.
             Some (Ok (ids2, numNodes + 1)))))
           else Some (Ok st))
       else obind (Some (vec_put ids i (numNodes + 1))) (\<lambda>ids1. Some (Ok (ids1, numNodes + 1)))))"

text \<open>Lines 98-113: \<^verbatim>\<open>vector<int> id(n, 0); int numNodes = 0;\<close> and the loop.\<close>

definition assign_ids ::
  "int \<Rightarrow> Edge list \<Rightarrow> int list \<Rightarrow> int list \<Rightarrow> (int list \<times> int) result option" where
  "assign_ids n edges inEdge cycle =
     for_each_opt [0..n - 1] (assign_id edges inEdge cycle) (replicate (nat n) 0, 0)"

text \<open>
  Lines 115-124, the body for one edge, on \<^verbatim>\<open>contractedEdges\<close>;
  \<^verbatim>\<open>w -= edges[inEdge[edge.to]].weight\<close> is a subtraction of \<^verbatim>\<open>int\<close>.
\<close>

definition contract_edge ::
  "Edge list \<Rightarrow> int list \<Rightarrow> int list \<Rightarrow> Edge \<Rightarrow> Edge list \<Rightarrow> Edge list result" where
  "contract_edge edges inEdge ids edge contractedEdges =
     rbind (vec_at ids (efrom edge)) (\<lambda>iu.
     rbind (vec_at ids (eto edge)) (\<lambda>iv.
       let u = iu - 1; v = iv - 1 in
       if u \<noteq> v
       then rbind (selected_weight edges inEdge (eto edge)) (\<lambda>sw.
              Ok (contractedEdges @ [Edge u v (wrap32 (eweight edge - sw))]))
       else Ok contractedEdges))"

definition contract_edges :: "Edge list \<Rightarrow> int list \<Rightarrow> int list \<Rightarrow> Edge list result" where
  "contract_edges edges inEdge ids = for_each edges (contract_edge edges inEdge ids) []"

section \<open>The solver\<close>

text \<open>
  The two \<^verbatim>\<open>return\<close> statements: \<^verbatim>\<open>return -1\<close> at line 51 and
  \<^verbatim>\<open>return minWeight\<close> at line 94.
\<close>

datatype outcome = NoArborescence | TotalWeight int

text \<open>
  One pass through the body of \<^verbatim>\<open>while (true)\<close>: either a \<^verbatim>\<open>return\<close>, or the
  variables \<^verbatim>\<open>n\<close>, \<^verbatim>\<open>root\<close>, \<^verbatim>\<open>edges\<close>, \<^verbatim>\<open>minWeight\<close>, \<^verbatim>\<open>inEdge\<close>, \<^verbatim>\<open>cycle\<close>,
  \<^verbatim>\<open>visited\<close> at the end of the body.
\<close>

datatype step = Return outcome
  | Continue int int "Edge list" int "int list" "int list" "int list"

definition iteration ::
  "int \<Rightarrow> int \<Rightarrow> Edge list \<Rightarrow> int \<Rightarrow> int list \<Rightarrow> int list \<Rightarrow> int list \<Rightarrow> step result option" where
  "iteration n root edges minWeight inEdge cycle visited =
     obind (Some (reset_inEdge n inEdge)) (\<lambda>inEdge0.
     obind (Some (select_inEdge edges inEdge0)) (\<lambda>inEdge1.
     obind (Some (missing_inEdge [0..n - 1] root inEdge1)) (\<lambda>missing.
     if missing then Some (Ok (Return NoArborescence))
     else
       obind (detect_cycles n root edges inEdge1 cycle visited) (\<lambda>(cycle1, visited1, cycleCount).
       obind (Some (accumulate n root edges inEdge1 minWeight)) (\<lambda>minWeight1.
       if cycleCount = 0 then Some (Ok (Return (TotalWeight minWeight1)))
       else
         obind (assign_ids n edges inEdge1 cycle1) (\<lambda>(ids, numNodes).
         obind (Some (contract_edges edges inEdge1 ids)) (\<lambda>contractedEdges.
         obind (Some (vec_at ids root)) (\<lambda>idr.
         Some (Ok (Continue numNodes (idr - 1) contractedEdges minWeight1
                     inEdge1 cycle1 visited1))))))))))"

text \<open>
  The loop \<^verbatim>\<open>while (true)\<close>. \<^verbatim>\<open>edges\<close> is a reference to the caller's vector, which
  line 125 overwrites, so the loop returns the vector with the outcome.
\<close>

partial_function (option) solve_loop ::
  "int \<Rightarrow> int \<Rightarrow> Edge list \<Rightarrow> int \<Rightarrow> int list \<Rightarrow> int list \<Rightarrow> int list
     \<Rightarrow> (outcome \<times> Edge list) result option" where
  "solve_loop n root edges minWeight inEdge cycle visited =
     (case iteration n root edges minWeight inEdge cycle visited of
        None \<Rightarrow> None
      | Some (Failure e) \<Rightarrow> Some (Failure e)
      | Some (Ok (Return r)) \<Rightarrow> Some (Ok (r, edges))
      | Some (Ok (Continue n' root' edges' minWeight' inEdge' cycle' visited')) \<Rightarrow>
          solve_loop n' root' edges' minWeight' inEdge' cycle' visited')"

declare solve_loop.simps [code]

text \<open>
  Lines 34-36 and the loop: the run of \<^verbatim>\<open>chuLiuEdmonds(n, root, edges)\<close> with the
  \<^verbatim>\<open>return\<close> statement it ends at and the final content of the caller's vector.
\<close>

definition chuLiuEdmonds_run :: "int \<Rightarrow> int \<Rightarrow> Edge list \<Rightarrow> (outcome \<times> Edge list) result option" where
  "chuLiuEdmonds_run n root edges =
     (if n < 0 then Some (Failure LengthError)
      else solve_loop n root edges 0
             (replicate (nat n) (- 1)) (replicate (nat n) (- 1)) (replicate (nat n) 0))"

text \<open>The \<^verbatim>\<open>int\<close> that the caller receives.\<close>

fun returned_int :: "outcome \<Rightarrow> int" where
  "returned_int NoArborescence = - 1"
| "returned_int (TotalWeight w) = w"

definition chuLiuEdmonds :: "int \<Rightarrow> int \<Rightarrow> Edge list \<Rightarrow> (int \<times> Edge list) result option" where
  "chuLiuEdmonds n root edges =
     obind (chuLiuEdmonds_run n root edges) (\<lambda>(r, edges'). Some (Ok (returned_int r, edges')))"

section \<open>Preconditions and specification-level notions\<close>

text \<open>
  The preconditions of the contract (section 4.1 of the specification): \<open>n \<ge> 1\<close>, the root
  is a vertex, and the endpoints of every edge are vertices.
\<close>

definition valid_input :: "int \<Rightarrow> int \<Rightarrow> Edge list \<Rightarrow> bool" where
  "valid_input n root edges \<longleftrightarrow>
     1 \<le> n \<and> 0 \<le> root \<and> root < n \<and>
     (\<forall>e \<in> set edges. 0 \<le> efrom e \<and> efrom e < n \<and> 0 \<le> eto e \<and> eto e < n)"

text \<open>
  What the selection phase establishes for a vertex \<open>v\<close>: no edge other than a self-loop
  enters \<open>v\<close>, or \<open>k\<close> is the index of an edge into \<open>v\<close> that is not a self-loop and
  whose weight is least among those.
\<close>

definition min_in_edge :: "Edge list \<Rightarrow> int \<Rightarrow> int \<Rightarrow> bool" where
  "min_in_edge edges v k \<longleftrightarrow>
     0 \<le> k \<and> k < int (length edges) \<and> eto (edges ! nat k) = v \<and> efrom (edges ! nat k) \<noteq> v \<and>
     (\<forall>e \<in> set edges. eto e = v \<and> efrom e \<noteq> v \<longrightarrow> eweight (edges ! nat k) \<le> eweight e)"

definition no_in_edge :: "Edge list \<Rightarrow> int \<Rightarrow> bool" where
  "no_in_edge edges v \<longleftrightarrow> (\<forall>e \<in> set edges. eto e = v \<longrightarrow> efrom e = v)"

definition selection :: "int \<Rightarrow> Edge list \<Rightarrow> int list \<Rightarrow> bool" where
  "selection n edges inEdge \<longleftrightarrow>
     (\<forall>v. 0 \<le> v \<and> v < n \<longrightarrow>
        (if inEdge ! nat v = - 1 then no_in_edge edges v else min_in_edge edges v (inEdge ! nat v)))"

text \<open>The same after the first \<open>j\<close> edges of the list, the invariant of the loop.\<close>

definition selection_upto :: "int \<Rightarrow> Edge list \<Rightarrow> int \<Rightarrow> int list \<Rightarrow> bool" where
  "selection_upto n edges j inEdge \<longleftrightarrow>
     (\<forall>v. 0 \<le> v \<and> v < n \<longrightarrow>
        (if inEdge ! nat v = - 1 then no_in_edge (take (nat j) edges) v
         else 0 \<le> inEdge ! nat v \<and> inEdge ! nat v < j \<and>
              eto (edges ! nat (inEdge ! nat v)) = v \<and> efrom (edges ! nat (inEdge ! nat v)) \<noteq> v \<and>
              (\<forall>e \<in> set (take (nat j) edges). eto e = v \<and> efrom e \<noteq> v \<longrightarrow>
                  eweight (edges ! nat (inEdge ! nat v)) \<le> eweight e)))"

subsection \<open>Spanning arborescences\<close>







subsection \<open>The range of the weights, and pure trees\<close>



section \<open>Invariants of the loops and auxiliary notions\<close>

definition marked :: "'a list \<Rightarrow> int set \<Rightarrow> 'a \<Rightarrow> 'a list \<Rightarrow> bool" where
  "marked xs A a ys \<longleftrightarrow>
     length ys = length xs \<and>
     (\<forall>w. 0 \<le> w \<and> w < int (length xs) \<longrightarrow> ys ! nat w = (if w \<in> A then a else xs ! nat w))"

definition chain_step :: "int \<Rightarrow> int \<Rightarrow> Edge list \<Rightarrow> int list \<Rightarrow> (int \<Rightarrow> int) \<Rightarrow> bool" where
  "chain_step n root edges inEdge f \<longleftrightarrow>
     0 \<le> root \<and> root < n \<and> f root = root \<and>
     (\<forall>v. 0 \<le> v \<and> v < n \<and> v \<noteq> root \<longrightarrow>
        selected_from edges inEdge v = Ok (f v) \<and> 0 \<le> f v \<and> f v < n \<and> f v \<noteq> v)"

definition on_cycle :: "(int \<Rightarrow> int) \<Rightarrow> int \<Rightarrow> int \<Rightarrow> bool" where
  "on_cycle f root v \<longleftrightarrow> v \<noteq> root \<and> (\<exists>k>0. (f ^^ k) v = v)"

definition same_class :: "(int \<Rightarrow> int) \<Rightarrow> int \<Rightarrow> int \<Rightarrow> int \<Rightarrow> bool" where
  "same_class f root u v \<longleftrightarrow> u = v \<or> (on_cycle f root u \<and> (\<exists>k. (f ^^ k) u = v))"

definition visited_inv :: "int \<Rightarrow> int \<Rightarrow> (int \<Rightarrow> int) \<Rightarrow> int \<Rightarrow> int list \<Rightarrow> bool" where
  "visited_inv n root f i visited \<longleftrightarrow>
     n \<le> int (length visited) \<and> visited ! nat root = 2 \<and>
     (\<forall>v. 0 \<le> v \<and> v < n \<longrightarrow> visited ! nat v = 0 \<or> visited ! nat v = 2) \<and>
     (\<forall>v. 0 \<le> v \<and> v < i \<and> v < n \<longrightarrow> visited ! nat v = 2) \<and>
     (\<forall>v. 0 \<le> v \<and> v < n \<and> visited ! nat v = 2 \<longrightarrow> visited ! nat (f v) = 2)"

definition cycle_inv :: "int \<Rightarrow> int \<Rightarrow> (int \<Rightarrow> int) \<Rightarrow> int list \<Rightarrow> int list \<Rightarrow> int \<Rightarrow> bool" where
  "cycle_inv n root f cycle visited cc \<longleftrightarrow>
     n \<le> int (length cycle) \<and> 0 \<le> cc \<and>
     (\<forall>v. 0 \<le> v \<and> v < n \<longrightarrow>
        (cycle ! nat v \<noteq> - 1) = (visited ! nat v = 2 \<and> on_cycle f root v)) \<and>
     ((cc = 0) = (\<forall>v. 0 \<le> v \<and> v < n \<longrightarrow> cycle ! nat v = - 1)) \<and>
     (\<forall>v. 0 \<le> v \<and> v < n \<longrightarrow> cycle ! nat v < cc) \<and>
     (\<forall>u v. 0 \<le> u \<and> u < n \<and> 0 \<le> v \<and> v < n \<and> cycle ! nat u \<noteq> - 1 \<and> cycle ! nat v \<noteq> - 1 \<longrightarrow>
        (cycle ! nat u = cycle ! nat v) = same_class f root u v)"

definition parent :: "int \<Rightarrow> Edge list \<Rightarrow> int list \<Rightarrow> int \<Rightarrow> int" where
  "parent root edges inEdge v = (if v = root then root else efrom (edges ! nat (inEdge ! nat v)))"

definition selected :: "Edge list \<Rightarrow> int list \<Rightarrow> int \<Rightarrow> Edge" where
  "selected edges inEdge v = edges ! nat (inEdge ! nat v)"

definition all_selected :: "int \<Rightarrow> int \<Rightarrow> Edge list \<Rightarrow> int list \<Rightarrow> bool" where
  "all_selected n root edges inEdge \<longleftrightarrow>
     valid_input n root edges \<and> n \<le> int (length inEdge) \<and> selection n edges inEdge \<and>
     (\<forall>v. 0 \<le> v \<and> v < n \<and> v \<noteq> root \<longrightarrow> inEdge ! nat v \<noteq> - 1)"

definition selected_total :: "int \<Rightarrow> int \<Rightarrow> Edge list \<Rightarrow> int list \<Rightarrow> int" where
  "selected_total n root edges inEdge =
     (\<Sum>v \<in> {0..<n} - {root}. eweight (selected edges inEdge v))"

text \<open>
  The value of \<^verbatim>\<open>minWeight\<close> after the loop of lines 87-91, when every vertex other than
  the root has a selected edge: with \<open>n = 1\<close> nothing is added.
\<close>

definition accumulated :: "int \<Rightarrow> int \<Rightarrow> Edge list \<Rightarrow> int list \<Rightarrow> int \<Rightarrow> int" where
  "accumulated n root edges inEdge minWeight =
     (if n = 1 then minWeight else wrap32 (minWeight + selected_total n root edges inEdge))"

definition ids_inv :: "int \<Rightarrow> int \<Rightarrow> (int \<Rightarrow> int) \<Rightarrow> int \<Rightarrow> int list \<Rightarrow> int \<Rightarrow> bool" where
  "ids_inv n root f i ids num \<longleftrightarrow>
     int (length ids) = n \<and> 0 \<le> num \<and>
     (\<forall>v. 0 \<le> v \<and> v < n \<longrightarrow> 0 \<le> ids ! nat v \<and> ids ! nat v \<le> num) \<and>
     (\<forall>v. 0 \<le> v \<and> v < n \<and> v < i \<longrightarrow> ids ! nat v \<noteq> 0) \<and>
     (\<forall>v. 0 \<le> v \<and> v < n \<and> ids ! nat v \<noteq> 0 \<longrightarrow>
        (\<exists>w. 0 \<le> w \<and> w < i \<and> w < n \<and> same_class f root w v)) \<and>
     (\<forall>u v. 0 \<le> u \<and> u < n \<and> 0 \<le> v \<and> v < n \<and> same_class f root u v \<longrightarrow>
        ids ! nat u = ids ! nat v) \<and>
     (\<forall>u v. 0 \<le> u \<and> u < n \<and> 0 \<le> v \<and> v < n \<and> ids ! nat u = ids ! nat v \<and> ids ! nat u \<noteq> 0 \<longrightarrow>
        same_class f root u v) \<and>
     (\<forall>k. 1 \<le> k \<and> k \<le> num \<longrightarrow> (\<exists>v. 0 \<le> v \<and> v < n \<and> ids ! nat v = k))"

definition ids_result :: "int \<Rightarrow> int \<Rightarrow> (int \<Rightarrow> int) \<Rightarrow> int list \<Rightarrow> int \<Rightarrow> bool" where
  "ids_result n root f ids num \<longleftrightarrow>
     int (length ids) = n \<and>
     (\<forall>v. 0 \<le> v \<and> v < n \<longrightarrow> 1 \<le> ids ! nat v \<and> ids ! nat v \<le> num) \<and>
     (\<forall>u v. 0 \<le> u \<and> u < n \<and> 0 \<le> v \<and> v < n \<longrightarrow>
        (ids ! nat u = ids ! nat v) = same_class f root u v) \<and>
     (\<forall>k. 1 \<le> k \<and> k \<le> num \<longrightarrow> (\<exists>v. 0 \<le> v \<and> v < n \<and> ids ! nat v = k))"

definition crossing :: "int list \<Rightarrow> Edge \<Rightarrow> bool" where
  "crossing ids e \<longleftrightarrow> ids ! nat (efrom e) \<noteq> ids ! nat (eto e)"

text \<open>
  The edge that lines 116-122 build from the edge \<open>e\<close>, and the list that the loop of
  lines 115-124 builds from the edge list.
\<close>

definition contract_one :: "Edge list \<Rightarrow> int list \<Rightarrow> int list \<Rightarrow> Edge \<Rightarrow> Edge" where
  "contract_one edges inEdge ids e =
     Edge (ids ! nat (efrom e) - 1) (ids ! nat (eto e) - 1)
       (wrap32 (eweight e - eweight (selected edges inEdge (eto e))))"

definition contracted :: "Edge list \<Rightarrow> int list \<Rightarrow> int list \<Rightarrow> Edge list" where
  "contracted edges inEdge ids = map (contract_one edges inEdge ids) (filter (crossing ids) edges)"

text \<open>
  The loop \<^verbatim>\<open>while (true)\<close> cut off after \<open>k\<close> passes through its body: \<open>None\<close> when
  the \<open>k\<close> passes do not reach a \<^verbatim>\<open>return\<close>.
\<close>

fun solve_bounded ::
  "nat \<Rightarrow> int \<Rightarrow> int \<Rightarrow> Edge list \<Rightarrow> int \<Rightarrow> int list \<Rightarrow> int list \<Rightarrow> int list
     \<Rightarrow> (outcome \<times> Edge list) result option" where
  "solve_bounded 0 n root edges minWeight inEdge cycle visited = None"
| "solve_bounded (Suc k) n root edges minWeight inEdge cycle visited =
     (case iteration n root edges minWeight inEdge cycle visited of
        None \<Rightarrow> None
      | Some (Failure e) \<Rightarrow> Some (Failure e)
      | Some (Ok (Return r)) \<Rightarrow> Some (Ok (r, edges))
      | Some (Ok (Continue n' root' edges' minWeight' inEdge' cycle' visited')) \<Rightarrow>
          solve_bounded k n' root' edges' minWeight' inEdge' cycle' visited')"

text \<open>The whole call cut off after \<open>k\<close> passes through the body of the loop.\<close>

definition chuLiuEdmonds_bounded :: "nat \<Rightarrow> int \<Rightarrow> int \<Rightarrow> Edge list \<Rightarrow> (outcome \<times> Edge list) result option" where
  "chuLiuEdmonds_bounded k n root edges =
     (if n < 0 then Some (Failure LengthError)
      else solve_bounded k n root edges 0
             (replicate (nat n) (- 1)) (replicate (nat n) (- 1)) (replicate (nat n) 0))"

text \<open>The first pass through the body of the loop, on the vectors of lines 34-36.\<close>

definition first_pass :: "int \<Rightarrow> int \<Rightarrow> Edge list \<Rightarrow> step result option" where
  "first_pass n root edges =
     iteration n root edges 0 (replicate (nat n) (- 1)) (replicate (nat n) (- 1)) (replicate (nat n) 0)"

text \<open>
  The contraction of the algorithm, on the mathematical integers: the edge \<open>(u, v, w)\<close>
  between two classes becomes \<open>(new u, new v, w - selection[v].weight)\<close>.
\<close>

definition contract_exact :: "Edge list \<Rightarrow> int list \<Rightarrow> int list \<Rightarrow> Edge \<Rightarrow> Edge" where
  "contract_exact edges inEdge ids e =
     Edge (ids ! nat (efrom e) - 1) (ids ! nat (eto e) - 1)
       (eweight e - eweight (selected edges inEdge (eto e)))"

definition contracted_exact :: "Edge list \<Rightarrow> int list \<Rightarrow> int list \<Rightarrow> Edge list" where
  "contracted_exact edges inEdge ids =
     map (contract_exact edges inEdge ids) (filter (crossing ids) edges)"


text \<open>
  The variables \<^verbatim>\<open>n\<close>, \<^verbatim>\<open>root\<close>, \<^verbatim>\<open>edges\<close>, \<^verbatim>\<open>minWeight\<close>, \<^verbatim>\<open>inEdge\<close>, \<^verbatim>\<open>cycle\<close>,
  \<^verbatim>\<open>visited\<close> after \<open>k\<close> passes through the body of the loop that all ended in a
  contraction; \<open>None\<close> when one of the \<open>k\<close> passes did not.
\<close>

fun snapshot_after ::
  "nat \<Rightarrow> int \<Rightarrow> int \<Rightarrow> Edge list \<Rightarrow> int \<Rightarrow> int list \<Rightarrow> int list \<Rightarrow> int list
     \<Rightarrow> (int \<times> int \<times> Edge list \<times> int \<times> int list \<times> int list \<times> int list) option" where
  "snapshot_after 0 n root edges minWeight inEdge cycle visited =
     Some (n, root, edges, minWeight, inEdge, cycle, visited)"
| "snapshot_after (Suc k) n root edges minWeight inEdge cycle visited =
     (case iteration n root edges minWeight inEdge cycle visited of
        Some (Ok (Continue n' root' edges' minWeight' inEdge' cycle' visited')) \<Rightarrow>
          snapshot_after k n' root' edges' minWeight' inEdge' cycle' visited'
      | _ \<Rightarrow> None)"

section \<open>Basic facts about the monad and the loops\<close>

lemma rbind_simps [simp]: "rbind (Ok x) f = f x" "rbind (Failure e) f = Failure e"
  by (simp_all add: rbind_def)

lemma obind_simps [simp]:
  "obind (Some (Ok x)) f = f x" "obind (Some (Failure e)) f = Some (Failure e)" "obind None f = None"
  by (simp_all add: obind_def)

lemma vec_at_Ok: "0 \<le> i \<Longrightarrow> i < int (length xs) \<Longrightarrow> vec_at xs i = Ok (xs ! nat i)"
  by (simp add: vec_at_def)

lemma vec_put_Ok: "0 \<le> i \<Longrightarrow> i < int (length xs) \<Longrightarrow> vec_put xs i v = Ok (xs[nat i := v])"
  by (simp add: vec_put_def)

lemma for_each_append:
  "for_each (xs @ ys) body s = rbind (for_each xs body s) (for_each ys body)"
  by (induction xs arbitrary: s) (auto simp: rbind_def split: result.splits)

lemma for_each_opt_append:
  "for_each_opt (xs @ ys) body s = obind (for_each_opt xs body s) (for_each_opt ys body)"
  by (induction xs arbitrary: s) (auto simp: obind_def split: result.splits option.splits)

lemma for_each_rule:
  assumes "I [] s"
    and "\<And>pre x post t. xs = pre @ x # post \<Longrightarrow> I pre t \<Longrightarrow> \<exists>t'. body x t = Ok t' \<and> I (pre @ [x]) t'"
  shows "\<exists>t. for_each xs body s = Ok t \<and> I xs t"
  using assms
proof (induction xs arbitrary: I s rule: rev_induct)
  case Nil
  then show ?case by simp
next
  case (snoc x xs)
  have "\<exists>t. for_each xs body s = Ok t \<and> I xs t"
  proof (rule snoc.IH[of I s])
    show "I [] s" by (rule snoc.prems(1))
  next
    fix pre y post t assume "xs = pre @ y # post" "I pre t"
    then show "\<exists>t'. body y t = Ok t' \<and> I (pre @ [y]) t'"
      using snoc.prems(2)[of pre y "post @ [x]" t] by simp
  qed
  then obtain t where t: "for_each xs body s = Ok t" "I xs t" by blast
  from snoc.prems(2)[of xs x "[]" t] t(2) obtain t' where "body x t = Ok t'" "I (xs @ [x]) t'"
    by auto
  with t show ?case by (simp add: for_each_append)
qed

lemma for_each_opt_rule:
  assumes "I [] s"
    and "\<And>pre x post t. xs = pre @ x # post \<Longrightarrow> I pre t \<Longrightarrow> \<exists>t'. body x t = Some (Ok t') \<and> I (pre @ [x]) t'"
  shows "\<exists>t. for_each_opt xs body s = Some (Ok t) \<and> I xs t"
  using assms
proof (induction xs arbitrary: I s rule: rev_induct)
  case Nil
  then show ?case by simp
next
  case (snoc x xs)
  have "\<exists>t. for_each_opt xs body s = Some (Ok t) \<and> I xs t"
  proof (rule snoc.IH[of I s])
    show "I [] s" by (rule snoc.prems(1))
  next
    fix pre y post t assume "xs = pre @ y # post" "I pre t"
    then show "\<exists>t'. body y t = Some (Ok t') \<and> I (pre @ [y]) t'"
      using snoc.prems(2)[of pre y "post @ [x]" t] by simp
  qed
  then obtain t where t: "for_each_opt xs body s = Some (Ok t)" "I xs t" by blast
  from snoc.prems(2)[of xs x "[]" t] t(2) obtain t' where "body x t = Some (Ok t')" "I (xs @ [x]) t'"
    by auto
  with t show ?case by (simp add: for_each_opt_append)
qed

lemma for_range_rule:
  assumes "I 0 s"
    and "\<And>i t. 0 \<le> i \<Longrightarrow> i < n \<Longrightarrow> I i t \<Longrightarrow> \<exists>t'. body i t = Ok t' \<and> I (i + 1) t'"
    and "0 \<le> n"
  shows "\<exists>t. for_each [0..n - 1] body s = Ok t \<and> I n t"
proof -
  have "int m \<le> n \<Longrightarrow> \<exists>t. for_each [0..int m - 1] body s = Ok t \<and> I (int m) t" for m
  proof (induction m)
    case 0
    then show ?case using assms(1) by simp
  next
    case (Suc m)
    then obtain t where t: "for_each [0..int m - 1] body s = Ok t" "I (int m) t" by auto
    from assms(2)[of "int m" t] Suc.prems t(2) obtain t' where
      t': "body (int m) t = Ok t'" "I (int m + 1) t'" by auto
    have "[0..int (Suc m) - 1] = [0..int m - 1] @ [int m]"
      using upto_rec2[of 0 "int m"] by simp
    with t t' show ?case by (simp add: for_each_append add.commute)
  qed
  from this[of "nat n"] assms(3) show ?thesis by simp
qed

lemma for_range_opt_rule:
  assumes "I 0 s"
    and "\<And>i t. 0 \<le> i \<Longrightarrow> i < n \<Longrightarrow> I i t \<Longrightarrow> \<exists>t'. body i t = Some (Ok t') \<and> I (i + 1) t'"
    and "0 \<le> n"
  shows "\<exists>t. for_each_opt [0..n - 1] body s = Some (Ok t) \<and> I n t"
proof -
  have "int m \<le> n \<Longrightarrow> \<exists>t. for_each_opt [0..int m - 1] body s = Some (Ok t) \<and> I (int m) t" for m
  proof (induction m)
    case 0
    then show ?case using assms(1) by simp
  next
    case (Suc m)
    then obtain t where t: "for_each_opt [0..int m - 1] body s = Some (Ok t)" "I (int m) t" by auto
    from assms(2)[of "int m" t] Suc.prems t(2) obtain t' where
      t': "body (int m) t = Some (Ok t')" "I (int m + 1) t'" by auto
    have "[0..int (Suc m) - 1] = [0..int m - 1] @ [int m]"
      using upto_rec2[of 0 "int m"] by simp
    with t t' show ?case by (simp add: for_each_opt_append add.commute)
  qed
  from this[of "nat n"] assms(3) show ?thesis by simp
qed

section \<open>Preconditions and the single-vertex graph\<close>

lemma for_each_map: "for_each (map f xs) body s = for_each xs (\<lambda>x. body (f x)) s"
  by (induction xs arbitrary: s) (auto simp: rbind_def split: result.splits)

lemma zip_upto_index:
  "zip [0..int (length es) - 1] es = map (\<lambda>k. (k, es ! nat k)) [0..int (length es) - 1]"
  by (rule nth_equalityI) (auto simp: nth_upto)

lemma select_inEdge_range:
  "select_inEdge edges inEdge =
     for_each [0..int (length edges) - 1] (\<lambda>k. select_step edges (k, edges ! nat k)) inEdge"
  by (simp add: select_inEdge_def zip_upto_index for_each_map)

lemma select_loops_only:
  assumes "\<forall>e \<in> set edges. efrom e = eto e"
  shows "select_inEdge edges inEdge = Ok inEdge"
proof -
  have "\<exists>t. for_each [0..int (length edges) - 1] (\<lambda>k. select_step edges (k, edges ! nat k)) inEdge = Ok t
          \<and> t = inEdge"
    by (rule for_range_rule[where I = "\<lambda>i t. t = inEdge"])
      (use assms in \<open>auto simp: select_step_def\<close>)
  then show ?thesis by (simp add: select_inEdge_range)
qed

lemma single_vertex_run:
  assumes "valid_input 1 root edges"
  shows "chuLiuEdmonds_run 1 root edges = Some (Ok (TotalWeight 0, edges))"
proof -
  from assms have r: "root = 0" and loops: "\<forall>e \<in> set edges. efrom e = eto e"
    by (auto simp: valid_input_def)
  have "iteration 1 0 edges 0 [- 1] [- 1] [0] = Some (Ok (Return (TotalWeight 0)))"
    by (simp add: iteration_def reset_inEdge_def select_loops_only[OF loops] vec_put_def
        vec_at_def detect_cycles_def detect_from_def accumulate_def accumulate_step_def)
  then show ?thesis
    by (simp add: chuLiuEdmonds_run_def r solve_loop.simps)
qed

section \<open>The selection phase\<close>

lemma reset_inEdge_spec:
  assumes "0 \<le> n" "n \<le> int (length inEdge)"
  shows "\<exists>ie. reset_inEdge n inEdge = Ok ie \<and> length ie = length inEdge \<and>
           (\<forall>v. 0 \<le> v \<and> v < n \<longrightarrow> ie ! nat v = - 1)"
  unfolding reset_inEdge_def
proof (rule for_range_rule[where I = "\<lambda>i ie. length ie = length inEdge \<and>
           (\<forall>v. 0 \<le> v \<and> v < i \<longrightarrow> ie ! nat v = - 1)"], goal_cases)
  case 1
  then show ?case by simp
next
  case (2 i t)
  have "\<And>v. 0 \<le> v \<Longrightarrow> v < i + 1 \<Longrightarrow> t[nat i := - 1] ! nat v = - 1"
  proof -
    fix v assume v: "0 \<le> v" "v < i + 1"
    show "t[nat i := - 1] ! nat v = - 1"
    proof (cases "v = i")
      case True
      then show ?thesis using 2 assms by simp
    next
      case False
      then have "nat v \<noteq> nat i" using v 2 by simp
      then show ?thesis using 2 v False by simp
    qed
  qed
  then show ?case using 2 assms by (auto simp: vec_put_def)
next
  case 3
  then show ?case by (rule assms)
qed

lemma take_int_Suc:
  assumes "0 \<le> j" "j < int (length edges)"
  shows "set (take (nat (j + 1)) edges) = insert (edges ! nat j) (set (take (nat j) edges))"
proof -
  have "nat (j + 1) = Suc (nat j)" using assms by simp
  then show ?thesis using assms by (simp add: take_Suc_conv_app_nth)
qed

lemma nth_update_int:
  assumes "0 \<le> i" "0 \<le> v" "i < int (length xs)"
  shows "xs[nat i := a] ! nat v = (if v = i then a else xs ! nat v)"
  using assms by (auto simp: nth_list_update)

lemma select_step_spec:
  assumes v: "valid_input n root edges"
    and len: "n \<le> int (length inEdge)"
    and j: "0 \<le> j" "j < int (length edges)"
    and inv: "selection_upto n edges j inEdge"
  shows "\<exists>ie. select_step edges (j, edges ! nat j) inEdge = Ok ie \<and> length ie = length inEdge \<and>
           selection_upto n edges (j + 1) ie"
proof -
  let ?e = "edges ! nat j"
  have mem: "?e \<in> set edges" using j by simp
  with v have rng: "0 \<le> efrom ?e" "efrom ?e < n" "0 \<le> eto ?e" "eto ?e < n"
    by (auto simp: valid_input_def)
  note tk = take_int_Suc[OF j]
  show ?thesis
  proof (cases "efrom ?e = eto ?e")
    case True
    have "selection_upto n edges (j + 1) inEdge"
      unfolding selection_upto_def
    proof (intro allI impI)
      fix w assume w: "0 \<le> w \<and> w < n"
      with inv have *: "if inEdge ! nat w = - 1 then no_in_edge (take (nat j) edges) w
         else 0 \<le> inEdge ! nat w \<and> inEdge ! nat w < j \<and>
              eto (edges ! nat (inEdge ! nat w)) = w \<and> efrom (edges ! nat (inEdge ! nat w)) \<noteq> w \<and>
              (\<forall>e \<in> set (take (nat j) edges). eto e = w \<and> efrom e \<noteq> w \<longrightarrow>
                  eweight (edges ! nat (inEdge ! nat w)) \<le> eweight e)"
        by (simp add: selection_upto_def)
      show "if inEdge ! nat w = - 1 then no_in_edge (take (nat (j + 1)) edges) w
         else 0 \<le> inEdge ! nat w \<and> inEdge ! nat w < j + 1 \<and>
              eto (edges ! nat (inEdge ! nat w)) = w \<and> efrom (edges ! nat (inEdge ! nat w)) \<noteq> w \<and>
              (\<forall>e \<in> set (take (nat (j + 1)) edges). eto e = w \<and> efrom e \<noteq> w \<longrightarrow>
                  eweight (edges ! nat (inEdge ! nat w)) \<le> eweight e)"
        using * True by (auto simp: tk no_in_edge_def split: if_splits)
    qed
    with True show ?thesis by (simp add: select_step_def)
  next
    case False
    let ?t = "eto ?e"
    let ?cur = "inEdge ! nat ?t"
    have at: "vec_at inEdge ?t = Ok ?cur" using rng len by (simp add: vec_at_def)
    from inv rng have cur: "if ?cur = - 1 then no_in_edge (take (nat j) edges) ?t
         else 0 \<le> ?cur \<and> ?cur < j \<and>
              eto (edges ! nat ?cur) = ?t \<and> efrom (edges ! nat ?cur) \<noteq> ?t \<and>
              (\<forall>e \<in> set (take (nat j) edges). eto e = ?t \<and> efrom e \<noteq> ?t \<longrightarrow>
                  eweight (edges ! nat ?cur) \<le> eweight e)"
      by (simp add: selection_upto_def)
    define better where "better \<longleftrightarrow> ?cur = - 1 \<or> eweight ?e < eweight (edges ! nat ?cur)"
    have cmp: "(if ?cur = - 1 then Ok True
                 else rbind (vec_at edges ?cur) (\<lambda>best. Ok (eweight ?e < eweight best))) = Ok better"
    proof (cases "?cur = - 1")
      case True
      then show ?thesis by (simp add: better_def)
    next
      case False
      with cur have "0 \<le> ?cur" "?cur < j" by simp_all
      with j False show ?thesis by (simp add: better_def vec_at_def)
    qed
    have step: "select_step edges (j, ?e) inEdge =
                  (if better then vec_put inEdge ?t j else Ok inEdge)"
      using False by (simp add: select_step_def at cmp)
    show ?thesis
    proof (cases better)
      case True
      let ?ie = "inEdge[nat ?t := j]"
      have put: "vec_put inEdge ?t j = Ok ?ie" using rng len by (simp add: vec_put_def)
      have "selection_upto n edges (j + 1) ?ie"
        unfolding selection_upto_def
      proof (intro allI impI)
        fix w assume w: "0 \<le> w \<and> w < n"
        have nth: "?ie ! nat w = (if w = ?t then j else inEdge ! nat w)"
          using nth_update_int[of ?t w inEdge j] rng w len by simp
        show "if ?ie ! nat w = - 1 then no_in_edge (take (nat (j + 1)) edges) w
         else 0 \<le> ?ie ! nat w \<and> ?ie ! nat w < j + 1 \<and>
              eto (edges ! nat (?ie ! nat w)) = w \<and> efrom (edges ! nat (?ie ! nat w)) \<noteq> w \<and>
              (\<forall>e \<in> set (take (nat (j + 1)) edges). eto e = w \<and> efrom e \<noteq> w \<longrightarrow>
                  eweight (edges ! nat (?ie ! nat w)) \<le> eweight e)"
        proof (cases "w = ?t")
          case True
          then show ?thesis
            using nth cur \<open>better\<close> False j
            by (auto simp: tk better_def no_in_edge_def split: if_splits)
        next
          case neq: False
          from inv w have *: "if inEdge ! nat w = - 1 then no_in_edge (take (nat j) edges) w
         else 0 \<le> inEdge ! nat w \<and> inEdge ! nat w < j \<and>
              eto (edges ! nat (inEdge ! nat w)) = w \<and> efrom (edges ! nat (inEdge ! nat w)) \<noteq> w \<and>
              (\<forall>e \<in> set (take (nat j) edges). eto e = w \<and> efrom e \<noteq> w \<longrightarrow>
                  eweight (edges ! nat (inEdge ! nat w)) \<le> eweight e)"
            by (simp add: selection_upto_def)
          show ?thesis using * neq nth
            by (auto simp: tk no_in_edge_def split: if_splits)
        qed
      qed
      with True step put show ?thesis by simp
    next
      case nb: False
      have "selection_upto n edges (j + 1) inEdge"
        unfolding selection_upto_def
      proof (intro allI impI)
        fix w assume w: "0 \<le> w \<and> w < n"
        from inv w have *: "if inEdge ! nat w = - 1 then no_in_edge (take (nat j) edges) w
         else 0 \<le> inEdge ! nat w \<and> inEdge ! nat w < j \<and>
              eto (edges ! nat (inEdge ! nat w)) = w \<and> efrom (edges ! nat (inEdge ! nat w)) \<noteq> w \<and>
              (\<forall>e \<in> set (take (nat j) edges). eto e = w \<and> efrom e \<noteq> w \<longrightarrow>
                  eweight (edges ! nat (inEdge ! nat w)) \<le> eweight e)"
          by (simp add: selection_upto_def)
        show "if inEdge ! nat w = - 1 then no_in_edge (take (nat (j + 1)) edges) w
         else 0 \<le> inEdge ! nat w \<and> inEdge ! nat w < j + 1 \<and>
              eto (edges ! nat (inEdge ! nat w)) = w \<and> efrom (edges ! nat (inEdge ! nat w)) \<noteq> w \<and>
              (\<forall>e \<in> set (take (nat (j + 1)) edges). eto e = w \<and> efrom e \<noteq> w \<longrightarrow>
                  eweight (edges ! nat (inEdge ! nat w)) \<le> eweight e)"
        proof (cases "w = ?t")
          case True
          then show ?thesis using * nb cur
            by (auto simp: tk better_def no_in_edge_def split: if_splits)
        next
          case neq: False
          then show ?thesis using *
            by (auto simp: tk no_in_edge_def split: if_splits)
        qed
      qed
      with nb step show ?thesis by simp
    qed
  qed
qed

lemma select_inEdge_spec:
  assumes v: "valid_input n root edges"
    and len: "n \<le> int (length inEdge)"
    and init: "\<forall>v. 0 \<le> v \<and> v < n \<longrightarrow> inEdge ! nat v = - 1"
  shows "\<exists>ie. select_inEdge edges inEdge = Ok ie \<and> length ie = length inEdge \<and> selection n edges ie"
proof -
  have "\<exists>ie. for_each [0..int (length edges) - 1] (\<lambda>k. select_step edges (k, edges ! nat k)) inEdge = Ok ie
          \<and> (length ie = length inEdge \<and> selection_upto n edges (int (length edges)) ie)"
  proof (rule for_range_rule[where I = "\<lambda>j ie. length ie = length inEdge \<and> selection_upto n edges j ie"],
      goal_cases)
    case 1
    then show ?case using init by (simp add: selection_upto_def no_in_edge_def)
  next
    case (2 j t)
    then show ?case using select_step_spec[OF v _ 2(1,2), of t] len by auto
  next
    case 3
    then show ?case by simp
  qed
  then obtain ie where ie: "select_inEdge edges inEdge = Ok ie" "length ie = length inEdge"
    "selection_upto n edges (int (length edges)) ie"
    by (auto simp: select_inEdge_range)
  have "selection n edges ie"
    using ie(3) unfolding selection_def selection_upto_def min_in_edge_def
    by (auto split: if_splits)
  with ie show ?thesis by blast
qed

section \<open>The cycle detection phase\<close>

lemma chain_stepD:
  assumes "chain_step n root edges inEdge f" "0 \<le> v" "v < n" "v \<noteq> root"
  shows "selected_from edges inEdge v = Ok (f v) \<and> 0 \<le> f v \<and> f v < n \<and> f v \<noteq> v"
  using assms by (simp add: chain_step_def)

lemma chain_step_root:
  assumes "chain_step n root edges inEdge f"
  shows "0 \<le> root" "root < n" "f root = root"
  using assms by (simp_all add: chain_step_def)

lemma marked_refl: "marked xs {} a xs"
  by (simp add: marked_def)

lemma marked_length: "marked xs A a ys \<Longrightarrow> length ys = length xs"
  by (simp add: marked_def)

lemma marked_nth:
  "marked xs A a ys \<Longrightarrow> 0 \<le> w \<Longrightarrow> w < int (length xs) \<Longrightarrow> ys ! nat w = (if w \<in> A then a else xs ! nat w)"
  by (simp add: marked_def)

lemma marked_update:
  assumes "marked (xs[nat u := a]) A a ys" "0 \<le> u" "u < int (length xs)"
  shows "marked xs (insert u A) a ys"
  unfolding marked_def
proof (intro conjI allI impI)
  show "length ys = length xs" using assms(1) by (simp add: marked_def)
next
  fix w assume w: "0 \<le> w \<and> w < int (length xs)"
  then have "ys ! nat w = (if w \<in> A then a else xs[nat u := a] ! nat w)"
    using assms(1) by (simp add: marked_def)
  also have "xs[nat u := a] ! nat w = (if w = u then a else xs ! nat w)"
    using nth_update_int[of u w xs a] assms w by simp
  finally show "ys ! nat w = (if w \<in> insert u A then a else xs ! nat w)" by auto
qed

lemma marked_update_last:
  assumes "marked xs A a ys" "0 \<le> u" "u < int (length xs)"
  shows "marked xs (insert u A) a (ys[nat u := a])"
  unfolding marked_def
proof (intro conjI allI impI)
  show "length (ys[nat u := a]) = length xs" using assms(1) by (simp add: marked_def)
next
  fix w assume w: "0 \<le> w \<and> w < int (length xs)"
  have "ys[nat u := a] ! nat w = (if w = u then a else ys ! nat w)"
    using nth_update_int[of u w ys a] assms w by (simp add: marked_def)
  then show "ys[nat u := a] ! nat w = (if w \<in> insert u A then a else xs ! nat w)"
    using assms(1) w by (auto simp: marked_def)
qed

lemma chain_set_Suc: "{((f :: int \<Rightarrow> int) ^^ j) u |j. j < Suc m} = insert u {(f ^^ j) (f u) |j. j < m}"
proof (intro equalityI subsetI)
  fix x assume "x \<in> {(f ^^ j) u |j. j < Suc m}"
  then obtain j where j: "j < Suc m" "x = (f ^^ j) u" by blast
  show "x \<in> insert u {(f ^^ j) (f u) |j. j < m}"
  proof (cases j)
    case 0
    then show ?thesis using j by simp
  next
    case (Suc k)
    then have "x = (f ^^ k) (f u)" "k < m" using j by (simp_all add: funpow_swap1)
    then show ?thesis by blast
  qed
next
  fix x assume "x \<in> insert u {(f ^^ j) (f u) |j. j < m}"
  then consider "x = u" | j where "j < m" "x = (f ^^ j) (f u)" by blast
  then show "x \<in> {(f ^^ j) u |j. j < Suc m}"
  proof cases
    case 1
    then have "x = (f ^^ 0) u" by simp
    then show ?thesis by blast
  next
    case 2
    then have "x = (f ^^ Suc j) u" "Suc j < Suc m" by (simp_all add: funpow_swap1)
    then show ?thesis by blast
  qed
qed

lemma walk_chain_spec:
  assumes cs: "chain_step n root edges inEdge f"
    and len: "n \<le> int (length visited)"
    and rt: "visited ! nat root = 2"
    and vals: "\<forall>v. 0 \<le> v \<and> v < n \<longrightarrow> visited ! nat v \<in> {0, 1, 2}"
    and u: "0 \<le> u" "u < n"
  shows "\<exists>m vis' hc. walk_chain edges inEdge visited u = Some (Ok (vis', (f ^^ m) u, hc)) \<and>
           marked visited {(f ^^ j) u |j. j < m} 1 vis' \<and>
           inj_on (\<lambda>j. (f ^^ j) u) {..<m} \<and>
           (\<forall>j<m. visited ! nat ((f ^^ j) u) = 0 \<and> 0 \<le> (f ^^ j) u \<and> (f ^^ j) u < n) \<and>
           0 \<le> (f ^^ m) u \<and> (f ^^ m) u < n \<and>
           vis' ! nat ((f ^^ m) u) = (if hc then 1 else 2)"
  using len rt vals u
proof (induction "card {v. 0 \<le> v \<and> v < n \<and> visited ! nat v = 0}" arbitrary: visited u rule: less_induct)
  case less
  have at: "vec_at visited u = Ok (visited ! nat u)"
    using less.prems by (simp add: vec_at_def)
  from less.prems have cases3: "visited ! nat u = 2 \<or> visited ! nat u = 1 \<or> visited ! nat u = 0"
    by auto
  show ?case
  proof (cases "visited ! nat u = 2 \<or> visited ! nat u = 1")
    case True
    then have "walk_chain edges inEdge visited u = Some (Ok (visited, (f ^^ 0) u, visited ! nat u = 1))"
      by (subst walk_chain.simps) (auto simp: at)
    moreover have "marked visited {(f ^^ j) u |j. j < 0} 1 visited" by (simp add: marked_refl)
    ultimately show ?thesis using True less.prems(4,5)
      by (intro exI[of _ 0] exI[of _ visited] exI[of _ "visited ! nat u = 1"]) auto
  next
    case False
    with cases3 have z: "visited ! nat u = 0" by simp
    then have nr: "u \<noteq> root" using less.prems(2) by auto
    let ?vis = "visited[nat u := 1]"
    have put: "vec_put visited u 1 = Ok ?vis" using less.prems by (simp add: vec_put_def)
    from chain_stepD[OF cs less.prems(4,5) nr]
    have sf: "selected_from edges inEdge u = Ok (f u)" and fu: "0 \<le> f u" "f u < n"
      by simp_all
    have unfold: "walk_chain edges inEdge visited u = walk_chain edges inEdge ?vis (f u)"
      by (subst walk_chain.simps) (simp add: at z put sf)
    have nth: "?vis ! nat w = (if w = u then 1 else visited ! nat w)" if "0 \<le> w" "w < n" for w
      using nth_update_int[of u w visited 1] less.prems(1,4,5) that by simp
    have "{v. 0 \<le> v \<and> v < n \<and> ?vis ! nat v = 0} \<subseteq> {v. 0 \<le> v \<and> v < n \<and> visited ! nat v = 0}"
    proof
      fix v assume "v \<in> {v. 0 \<le> v \<and> v < n \<and> ?vis ! nat v = 0}"
      then have v: "0 \<le> v" "v < n" "?vis ! nat v = 0" by simp_all
      with nth[of v] have "visited ! nat v = 0" by (simp split: if_splits)
      with v show "v \<in> {v. 0 \<le> v \<and> v < n \<and> visited ! nat v = 0}" by simp
    qed
    moreover have "u \<in> {v. 0 \<le> v \<and> v < n \<and> visited ! nat v = 0}"
      using z less.prems(4,5) by simp
    moreover have "u \<notin> {v. 0 \<le> v \<and> v < n \<and> ?vis ! nat v = 0}"
      using nth[of u] less.prems(4,5) by simp
    ultimately have sub: "{v. 0 \<le> v \<and> v < n \<and> ?vis ! nat v = 0} \<subset> {v. 0 \<le> v \<and> v < n \<and> visited ! nat v = 0}"
      by blast
    have fin: "finite {v. 0 \<le> v \<and> v < n \<and> visited ! nat v = 0}"
      by (rule finite_subset[of _ "{0..<n}"]) auto
    have dec: "card {v. 0 \<le> v \<and> v < n \<and> ?vis ! nat v = 0} < card {v. 0 \<le> v \<and> v < n \<and> visited ! nat v = 0}"
      by (rule psubset_card_mono[OF fin sub])
    have rt': "?vis ! nat root = 2" using nth[of root] chain_step_root[OF cs] nr less.prems(2) by simp
    have vals': "\<forall>v. 0 \<le> v \<and> v < n \<longrightarrow> ?vis ! nat v \<in> {0, 1, 2}"
    proof (intro allI impI)
      fix v assume v: "0 \<le> v \<and> v < n"
      with less.prems(3) have "visited ! nat v \<in> {0, 1, 2}" by blast
      with nth[of v] v show "?vis ! nat v \<in> {0, 1, 2}" by (simp split: if_splits)
    qed
    have len': "n \<le> int (length ?vis)" using less.prems(1) by simp
    from less.hyps[OF dec len' rt' vals' fu]
    obtain m vis' hc where ih:
      "walk_chain edges inEdge ?vis (f u) = Some (Ok (vis', (f ^^ m) (f u), hc))"
      "marked ?vis {(f ^^ j) (f u) |j. j < m} 1 vis'"
      "inj_on (\<lambda>j. (f ^^ j) (f u)) {..<m}"
      "\<forall>j<m. ?vis ! nat ((f ^^ j) (f u)) = 0 \<and> 0 \<le> (f ^^ j) (f u) \<and> (f ^^ j) (f u) < n"
      "0 \<le> (f ^^ m) (f u)" "(f ^^ m) (f u) < n"
      "vis' ! nat ((f ^^ m) (f u)) = (if hc then 1 else 2)"
      by blast
    have neq: "\<forall>j<m. (f ^^ j) (f u) \<noteq> u \<and> visited ! nat ((f ^^ j) (f u)) = 0"
    proof (intro allI impI)
      fix j assume "j < m"
      with ih(4) have *: "?vis ! nat ((f ^^ j) (f u)) = 0" "0 \<le> (f ^^ j) (f u)" "(f ^^ j) (f u) < n"
        by auto
      with nth[of "(f ^^ j) (f u)"] show "(f ^^ j) (f u) \<noteq> u \<and> visited ! nat ((f ^^ j) (f u)) = 0"
        by (auto split: if_splits)
    qed
    have 1: "walk_chain edges inEdge visited u = Some (Ok (vis', (f ^^ Suc m) u, hc))"
      using unfold ih(1) by (simp add: funpow_swap1)
    have 2: "marked visited {(f ^^ j) u |j. j < Suc m} 1 vis'"
      unfolding chain_set_Suc using marked_update[OF ih(2)] less.prems by simp
    have 3: "inj_on (\<lambda>j. (f ^^ j) u) {..<Suc m}"
    proof (rule inj_onI)
      fix a b assume ab: "a \<in> {..<Suc m}" "b \<in> {..<Suc m}" "(f ^^ a) u = (f ^^ b) u"
      show "a = b"
      proof (cases a)
        case 0
        show ?thesis
        proof (cases b)
          case (Suc b')
          with ab 0 neq have False by (auto simp: funpow_swap1)
          then show ?thesis ..
        qed (use 0 in simp)
      next
        case (Suc a')
        show ?thesis
        proof (cases b)
          case 0
          with ab Suc neq have False by (auto simp: funpow_swap1)
          then show ?thesis ..
        next
          case b: (Suc b')
          with ab Suc have "(f ^^ a') (f u) = (f ^^ b') (f u)" "a' < m" "b' < m"
            by (simp_all add: funpow_swap1)
          with ih(3) have "a' = b'" by (auto dest: inj_onD)
          then show ?thesis using Suc b by simp
        qed
      qed
    qed
    have 4: "\<forall>j<Suc m. visited ! nat ((f ^^ j) u) = 0 \<and> 0 \<le> (f ^^ j) u \<and> (f ^^ j) u < n"
    proof (intro allI impI)
      fix j assume j: "j < Suc m"
      show "visited ! nat ((f ^^ j) u) = 0 \<and> 0 \<le> (f ^^ j) u \<and> (f ^^ j) u < n"
      proof (cases j)
        case 0
        then show ?thesis using z less.prems by simp
      next
        case (Suc k)
        then have "k < m" using j by simp
        with neq ih(4) Suc show ?thesis by (simp add: funpow_swap1)
      qed
    qed
    have 5: "0 \<le> (f ^^ Suc m) u" "(f ^^ Suc m) u < n"
      "vis' ! nat ((f ^^ Suc m) u) = (if hc then 1 else 2)"
      using ih(5,6,7) by (simp_all add: funpow_swap1)
    from 1 2 3 4 5 show ?thesis by blast
  qed
qed

lemma chain_inj:
  "inj_on (\<lambda>j. ((f :: int \<Rightarrow> int) ^^ j) u) {..<m} \<Longrightarrow> a < m \<Longrightarrow> b < m \<Longrightarrow> (f ^^ a) u = (f ^^ b) u \<Longrightarrow> a = b"
  by (auto dest: inj_onD)

lemma settle_chain_spec:
  assumes cs: "chain_step n root edges inEdge f"
    and len: "n \<le> int (length visited)"
    and inj: "inj_on (\<lambda>j. (f ^^ j) u) {..<m}"
    and chain: "\<forall>j<m. visited ! nat ((f ^^ j) u) \<noteq> 2 \<and> 0 \<le> (f ^^ j) u \<and> (f ^^ j) u < n \<and> (f ^^ j) u \<noteq> root"
    and last: "0 \<le> (f ^^ m) u" "(f ^^ m) u < n"
      "visited ! nat ((f ^^ m) u) = 2 \<or> (\<exists>l<m. (f ^^ m) u = (f ^^ l) u)"
  shows "\<exists>vis'. settle_chain edges inEdge visited u = Some (Ok vis') \<and>
           marked visited {(f ^^ j) u |j. j < m} 2 vis'"
  using len inj chain last
proof (induction m arbitrary: visited u)
  case 0
  then have "vec_at visited u = Ok 2" by (simp add: vec_at_def)
  then have "settle_chain edges inEdge visited u = Some (Ok visited)"
    by (subst settle_chain.simps) simp
  then show ?case by (simp add: marked_refl)
next
  case (Suc m)
  from Suc.prems(3) have u: "visited ! nat u \<noteq> 2" "0 \<le> u" "u < n" "u \<noteq> root"
    by (auto dest: spec[of _ 0])
  let ?vis = "visited[nat u := 2]"
  have at: "vec_at visited u = Ok (visited ! nat u)" using u Suc.prems(1) by (simp add: vec_at_def)
  have put: "vec_put visited u 2 = Ok ?vis" using u Suc.prems(1) by (simp add: vec_put_def)
  from chain_stepD[OF cs u(2,3,4)] have sf: "selected_from edges inEdge u = Ok (f u)" by simp
  have unfold: "settle_chain edges inEdge visited u = settle_chain edges inEdge ?vis (f u)"
    by (subst settle_chain.simps) (simp add: at u put sf)
  have nth: "?vis ! nat w = (if w = u then 2 else visited ! nat w)" if "0 \<le> w" "w < n" for w
    using nth_update_int[of u w visited 2] Suc.prems(1) u that by simp
  have neq: "(f ^^ j) (f u) \<noteq> u" if "j < m" for j
  proof
    assume "(f ^^ j) (f u) = u"
    then have "(f ^^ Suc j) u = (f ^^ 0) u" by (simp add: funpow_swap1)
    from chain_inj[OF Suc.prems(2) _ _ this] that show False by simp
  qed
  have len': "n \<le> int (length ?vis)" using Suc.prems(1) by simp
  have inj': "inj_on (\<lambda>j. (f ^^ j) (f u)) {..<m}"
  proof (rule inj_onI)
    fix a b assume ab: "a \<in> {..<m}" "b \<in> {..<m}" "(f ^^ a) (f u) = (f ^^ b) (f u)"
    then have "(f ^^ Suc a) u = (f ^^ Suc b) u" by (simp add: funpow_swap1)
    from chain_inj[OF Suc.prems(2) _ _ this] ab show "a = b" by simp
  qed
  have chain': "\<forall>j<m. ?vis ! nat ((f ^^ j) (f u)) \<noteq> 2 \<and> 0 \<le> (f ^^ j) (f u) \<and>
                  (f ^^ j) (f u) < n \<and> (f ^^ j) (f u) \<noteq> root"
  proof (intro allI impI)
    fix j assume j: "j < m"
    with Suc.prems(3) have *: "visited ! nat ((f ^^ Suc j) u) \<noteq> 2" "0 \<le> (f ^^ Suc j) u"
      "(f ^^ Suc j) u < n" "(f ^^ Suc j) u \<noteq> root"
      by (auto dest: spec[of _ "Suc j"])
    then have **: "visited ! nat ((f ^^ j) (f u)) \<noteq> 2" "0 \<le> (f ^^ j) (f u)"
      "(f ^^ j) (f u) < n" "(f ^^ j) (f u) \<noteq> root"
      by (simp_all add: funpow_swap1)
    with nth[of "(f ^^ j) (f u)"] neq[OF j]
    show "?vis ! nat ((f ^^ j) (f u)) \<noteq> 2 \<and> 0 \<le> (f ^^ j) (f u) \<and>
                  (f ^^ j) (f u) < n \<and> (f ^^ j) (f u) \<noteq> root"
      by simp
  qed
  have last': "0 \<le> (f ^^ m) (f u)" "(f ^^ m) (f u) < n"
    using Suc.prems(4,5) by (simp_all add: funpow_swap1)
  have last'': "?vis ! nat ((f ^^ m) (f u)) = 2 \<or> (\<exists>l<m. (f ^^ m) (f u) = (f ^^ l) (f u))"
  proof -
    from Suc.prems(6) consider "visited ! nat ((f ^^ m) (f u)) = 2"
      | l where "l < Suc m" "(f ^^ m) (f u) = (f ^^ l) u"
      by (auto simp: funpow_swap1)
    then show ?thesis
    proof cases
      case 1
      with nth[OF last'] show ?thesis by simp
    next
      case 2
      show ?thesis
      proof (cases l)
        case 0
        with 2 have "(f ^^ m) (f u) = u" by simp
        with nth[OF last'] show ?thesis by simp
      next
        case (Suc l')
        with 2 have "l' < m" "(f ^^ m) (f u) = (f ^^ l') (f u)" by (simp_all add: funpow_swap1)
        then show ?thesis by blast
      qed
    qed
  qed
  from Suc.IH[OF len' inj' chain' last' last'']
  obtain vis' where ih: "settle_chain edges inEdge ?vis (f u) = Some (Ok vis')"
    "marked ?vis {(f ^^ j) (f u) |j. j < m} 2 vis'"
    by blast
  have "marked visited {(f ^^ j) u |j. j < Suc m} 2 vis'"
    unfolding chain_set_Suc using marked_update[OF ih(2)] u Suc.prems(1) by simp
  with unfold ih(1) show ?case by simp
qed

lemma mark_cycle_spec:
  assumes cs: "chain_step n root edges inEdge f"
    and len: "n \<le> int (length cycle)"
    and ret: "(f ^^ Suc r) v = u"
    and first: "\<forall>j. 0 < j \<and> j \<le> r \<longrightarrow> (f ^^ j) v \<noteq> u"
    and chain: "\<forall>j\<le>r. 0 \<le> (f ^^ j) v \<and> (f ^^ j) v < n \<and> (f ^^ j) v \<noteq> root"
  shows "\<exists>cycle'. mark_cycle edges inEdge cycleId u cycle v = Some (Ok cycle') \<and>
           marked cycle {(f ^^ j) v |j. j < Suc r} cycleId cycle'"
  using len ret first chain
proof (induction r arbitrary: cycle v)
  case 0
  then have v: "0 \<le> v" "v < n" "v \<noteq> root" by auto
  let ?cy = "cycle[nat v := cycleId]"
  have put: "vec_put cycle v cycleId = Ok ?cy" using v 0(1) by (simp add: vec_put_def)
  from chain_stepD[OF cs v] have sf: "selected_from edges inEdge v = Ok (f v)" by simp
  from 0(2) have "f v = u" by simp
  then have "mark_cycle edges inEdge cycleId u cycle v = Some (Ok ?cy)"
    by (subst mark_cycle.simps) (simp add: put sf)
  moreover have "marked cycle {(f ^^ j) v |j. j < Suc 0} cycleId ?cy"
    using marked_update_last[OF marked_refl[of cycle cycleId], of v] v 0(1) by simp
  ultimately show ?case by blast
next
  case (Suc r)
  from Suc.prems(4) have v: "0 \<le> v" "v < n" "v \<noteq> root"
    by (auto dest: spec[of _ 0])
  let ?cy = "cycle[nat v := cycleId]"
  have put: "vec_put cycle v cycleId = Ok ?cy" using v Suc.prems(1) by (simp add: vec_put_def)
  from chain_stepD[OF cs v] have sf: "selected_from edges inEdge v = Ok (f v)" by simp
  from Suc.prems(3) have "f v \<noteq> u" by (auto dest: spec[of _ 1])
  then have unfold: "mark_cycle edges inEdge cycleId u cycle v = mark_cycle edges inEdge cycleId u ?cy (f v)"
    by (subst mark_cycle.simps) (simp add: put sf)
  have len': "n \<le> int (length ?cy)" using Suc.prems(1) by simp
  have ret': "(f ^^ Suc r) (f v) = u" using Suc.prems(2) by (simp add: funpow_swap1)
  have first': "\<forall>j. 0 < j \<and> j \<le> r \<longrightarrow> (f ^^ j) (f v) \<noteq> u"
  proof (intro allI impI)
    fix j assume "0 < j \<and> j \<le> r"
    then have "0 < Suc j \<and> Suc j \<le> Suc r" by simp
    with Suc.prems(3) have "(f ^^ Suc j) v \<noteq> u" by blast
    then show "(f ^^ j) (f v) \<noteq> u" by (simp add: funpow_swap1)
  qed
  have chain': "\<forall>j\<le>r. 0 \<le> (f ^^ j) (f v) \<and> (f ^^ j) (f v) < n \<and> (f ^^ j) (f v) \<noteq> root"
  proof (intro allI impI)
    fix j assume "j \<le> r"
    then have "Suc j \<le> Suc r" by simp
    with Suc.prems(4) have "0 \<le> (f ^^ Suc j) v \<and> (f ^^ Suc j) v < n \<and> (f ^^ Suc j) v \<noteq> root"
      by blast
    then show "0 \<le> (f ^^ j) (f v) \<and> (f ^^ j) (f v) < n \<and> (f ^^ j) (f v) \<noteq> root"
      by (simp add: funpow_swap1)
  qed
  from Suc.IH[OF len' ret' first' chain']
  obtain cycle' where ih: "mark_cycle edges inEdge cycleId u ?cy (f v) = Some (Ok cycle')"
    "marked ?cy {(f ^^ j) (f v) |j. j < Suc r} cycleId cycle'"
    by blast
  have "marked cycle {(f ^^ j) v |j. j < Suc (Suc r)} cycleId cycle'"
    unfolding chain_set_Suc[of f v "Suc r"] using marked_update[OF ih(2)] v Suc.prems(1) by simp
  with unfold ih(1) show ?case by simp
qed

lemma label_cycle_spec:
  assumes cs: "chain_step n root edges inEdge f"
    and len: "n \<le> int (length ids)"
    and ret: "(f ^^ r) c = i"
    and first: "\<forall>j<r. (f ^^ j) c \<noteq> i"
    and chain: "\<forall>j<r. 0 \<le> (f ^^ j) c \<and> (f ^^ j) c < n \<and> (f ^^ j) c \<noteq> root"
  shows "\<exists>ids'. label_cycle edges inEdge i numNodes ids c = Some (Ok ids') \<and>
           marked ids {(f ^^ j) c |j. j < r} numNodes ids'"
  using len ret first chain
proof (induction r arbitrary: ids c)
  case 0
  then have "c = i" by simp
  then have "label_cycle edges inEdge i numNodes ids c = Some (Ok ids)"
    by (subst label_cycle.simps) simp
  then show ?case by (simp add: marked_refl)
next
  case (Suc r)
  from Suc.prems(4) have c: "0 \<le> c" "c < n" "c \<noteq> root"
    by (auto dest: spec[of _ 0])
  from Suc.prems(3) have ci: "c \<noteq> i" by (auto dest: spec[of _ 0])
  let ?ids = "ids[nat c := numNodes]"
  have put: "vec_put ids c numNodes = Ok ?ids" using c Suc.prems(1) by (simp add: vec_put_def)
  from chain_stepD[OF cs c] have sf: "selected_from edges inEdge c = Ok (f c)" by simp
  have unfold: "label_cycle edges inEdge i numNodes ids c = label_cycle edges inEdge i numNodes ?ids (f c)"
    by (subst label_cycle.simps) (simp add: put sf ci)
  have len': "n \<le> int (length ?ids)" using Suc.prems(1) by simp
  have ret': "(f ^^ r) (f c) = i" using Suc.prems(2) by (simp add: funpow_swap1)
  have first': "\<forall>j<r. (f ^^ j) (f c) \<noteq> i"
  proof (intro allI impI)
    fix j assume "j < r"
    then have "Suc j < Suc r" by simp
    with Suc.prems(3) have "(f ^^ Suc j) c \<noteq> i" by blast
    then show "(f ^^ j) (f c) \<noteq> i" by (simp add: funpow_swap1)
  qed
  have chain': "\<forall>j<r. 0 \<le> (f ^^ j) (f c) \<and> (f ^^ j) (f c) < n \<and> (f ^^ j) (f c) \<noteq> root"
  proof (intro allI impI)
    fix j assume "j < r"
    then have "Suc j < Suc r" by simp
    with Suc.prems(4) have "0 \<le> (f ^^ Suc j) c \<and> (f ^^ Suc j) c < n \<and> (f ^^ Suc j) c \<noteq> root"
      by blast
    then show "0 \<le> (f ^^ j) (f c) \<and> (f ^^ j) (f c) < n \<and> (f ^^ j) (f c) \<noteq> root"
      by (simp add: funpow_swap1)
  qed
  from Suc.IH[OF len' ret' first' chain']
  obtain ids' where ih: "label_cycle edges inEdge i numNodes ?ids (f c) = Some (Ok ids')"
    "marked ?ids {(f ^^ j) (f c) |j. j < r} numNodes ids'"
    by blast
  have "marked ids {(f ^^ j) c |j. j < Suc r} numNodes ids'"
    unfolding chain_set_Suc using marked_update[OF ih(2)] c Suc.prems(1) by simp
  with unfold ih(1) show ?case by simp
qed

lemma funpow_plus: "((f :: 'a \<Rightarrow> 'a) ^^ (a + b)) x = (f ^^ a) ((f ^^ b) x)"
  by (simp add: funpow_add)

lemma funpow_comm: "((f :: 'a \<Rightarrow> 'a) ^^ a) ((f ^^ b) x) = (f ^^ b) ((f ^^ a) x)"
  by (metis funpow_plus add.commute)

lemma funpow_diff: "l \<le> j \<Longrightarrow> ((f :: 'a \<Rightarrow> 'a) ^^ (j - l)) ((f ^^ l) x) = (f ^^ j) x"
  using funpow_plus[where f = f and a = "j - l" and b = l and x = x] by simp

lemma funpow_period_mult:
  assumes "((f :: 'a \<Rightarrow> 'a) ^^ k) v = v"
  shows "(f ^^ (k * t)) v = v"
proof (induction t)
  case 0
  then show ?case by simp
next
  case (Suc t)
  have "(f ^^ (k * Suc t)) v = (f ^^ (k * t)) ((f ^^ k) v)"
    using funpow_plus[where f = f and a = "k * t" and b = k and x = v] by (simp add: add.commute)
  with assms Suc show ?case by simp
qed

lemma chain_step_range:
  assumes cs: "chain_step n root edges inEdge f" and v: "0 \<le> v" "v < n"
  shows "0 \<le> (f ^^ j) v \<and> (f ^^ j) v < n"
proof (induction j)
  case 0
  then show ?case using v by simp
next
  case (Suc j)
  show ?case
  proof (cases "(f ^^ j) v = root")
    case True
    then show ?thesis using chain_step_root[OF cs] by simp
  next
    case False
    with chain_stepD[OF cs _ _ False] Suc show ?thesis by simp
  qed
qed

lemma chain_step_root_pow:
  assumes cs: "chain_step n root edges inEdge f"
  shows "(f ^^ j) root = root"
  by (induction j) (simp_all add: chain_step_root[OF cs])

lemma on_cycle_pow:
  assumes cs: "chain_step n root edges inEdge f" and oc: "on_cycle f root v"
  shows "on_cycle f root ((f ^^ j) v)"
proof -
  from oc obtain k where k: "k > 0" "(f ^^ k) v = v" and nr: "v \<noteq> root"
    by (auto simp: on_cycle_def)
  have "(f ^^ k) ((f ^^ j) v) = (f ^^ j) ((f ^^ k) v)"
    by (rule funpow_comm)
  then have per: "(f ^^ k) ((f ^^ j) v) = (f ^^ j) v" using k by simp
  have "(f ^^ j) v \<noteq> root"
  proof
    assume r: "(f ^^ j) v = root"
    have "(f ^^ (k * j)) v = v" by (rule funpow_period_mult[OF k(2)])
    moreover have "j \<le> k * j" using k(1) by (cases k) simp_all
    then have "(f ^^ (k * j)) v = (f ^^ (k * j - j)) ((f ^^ j) v)"
      by (simp add: funpow_diff)
    ultimately have "v = root" using r chain_step_root_pow[OF cs] by simp
    with nr show False by simp
  qed
  with per k(1) show ?thesis by (auto simp: on_cycle_def)
qed

lemma on_cycle_not_fixed:
  assumes cs: "chain_step n root edges inEdge f" and oc: "on_cycle f root v" and v: "0 \<le> v" "v < n"
  shows "f v \<noteq> v"
  using chain_stepD[OF cs v] oc by (simp add: on_cycle_def)

text \<open>A chain that runs into itself: the loop is a cycle, the tail is not.\<close>

lemma lasso_cycle:
  assumes ret: "((f :: int \<Rightarrow> int) ^^ m) i = (f ^^ l) i" and lm: "l < m" and j: "l \<le> j"
    and nr: "(f ^^ j) i \<noteq> root"
  shows "on_cycle f root ((f ^^ j) i)"
proof -
  have "(f ^^ (m - l)) ((f ^^ j) i) = (f ^^ (m - l)) ((f ^^ (j - l)) ((f ^^ l) i))"
    using j by (simp add: funpow_diff)
  also have "\<dots> = (f ^^ (j - l)) ((f ^^ (m - l)) ((f ^^ l) i))" by (rule funpow_comm)
  also have "(f ^^ (m - l)) ((f ^^ l) i) = (f ^^ m) i" using lm by (simp add: funpow_diff)
  also have "(f ^^ (j - l)) ((f ^^ m) i) = (f ^^ (j - l)) ((f ^^ l) i)" using ret by simp
  also have "\<dots> = (f ^^ j) i" using j by (simp add: funpow_diff)
  finally have "(f ^^ (m - l)) ((f ^^ j) i) = (f ^^ j) i" .
  with lm nr show ?thesis unfolding on_cycle_def by (intro conjI exI[of _ "m - l"]) simp_all
qed

lemma lasso_stays:
  assumes ret: "((f :: int \<Rightarrow> int) ^^ m) i = (f ^^ l) i" and lm: "l < m" and x: "l \<le> x"
  shows "\<exists>y. l \<le> y \<and> y < m \<and> (f ^^ x) i = (f ^^ y) i"
  using x
proof (induction x)
  case 0
  then show ?case using lm by auto
next
  case (Suc x)
  show ?case
  proof (cases "l \<le> x")
    case False
    with Suc.prems have "Suc x = l" by simp
    then show ?thesis using lm by blast
  next
    case True
    from Suc.IH[OF True] obtain y where y: "l \<le> y" "y < m" "(f ^^ x) i = (f ^^ y) i" by blast
    have eq: "(f ^^ Suc x) i = (f ^^ Suc y) i" using y(3) by simp
    show ?thesis
    proof (cases "Suc y < m")
      case True
      with y eq show ?thesis by (intro exI[of _ "Suc y"]) simp
    next
      case False
      with y have "Suc y = m" by simp
      with eq ret have "(f ^^ Suc x) i = (f ^^ l) i" by simp
      with lm show ?thesis by blast
    qed
  qed
qed

lemma lasso_tail:
  assumes ret: "((f :: int \<Rightarrow> int) ^^ m) i = (f ^^ l) i" and lm: "l < m" and j: "j < l"
    and inj: "inj_on (\<lambda>j. (f ^^ j) i) {..<m}"
  shows "\<not> on_cycle f root ((f ^^ j) i)"
proof
  assume "on_cycle f root ((f ^^ j) i)"
  then obtain k where k: "k > 0" "(f ^^ k) ((f ^^ j) i) = (f ^^ j) i" by (auto simp: on_cycle_def)
  have "(f ^^ (k * l)) ((f ^^ j) i) = (f ^^ j) i" by (rule funpow_period_mult[OF k(2)])
  then have eq: "(f ^^ (k * l + j)) i = (f ^^ j) i" by (simp add: funpow_plus)
  have "l \<le> k * l + j" using k(1) by (cases k) simp_all
  from lasso_stays[OF ret lm this] obtain y where y: "l \<le> y" "y < m" "(f ^^ (k * l + j)) i = (f ^^ y) i"
    by blast
  with eq have "(f ^^ j) i = (f ^^ y) i" by simp
  from chain_inj[OF inj _ _ this] j lm y show False by simp
qed

text \<open>A chain that runs into a set closed under \<open>f\<close> from outside holds no cycle vertex.\<close>

lemma closed_pow:
  assumes closed: "\<forall>v. 0 \<le> v \<and> v < n \<and> P v \<longrightarrow> P (f v)"
    and cs: "chain_step n root edges inEdge f"
    and v: "0 \<le> v" "v < n" "P v"
  shows "P ((f ^^ t) v)"
proof (induction t)
  case 0
  then show ?case using v by simp
next
  case (Suc t)
  from chain_step_range[OF cs v(1,2), of t] Suc closed show ?case by simp
qed

lemma chain_into_closed:
  assumes closed: "\<forall>v. 0 \<le> v \<and> v < n \<and> P v \<longrightarrow> P (f v)"
    and cs: "chain_step n root edges inEdge f"
    and i: "0 \<le> i" "i < n"
    and jm: "j \<le> m" and Pm: "P ((f ^^ m) i)" and nP: "\<not> P ((f ^^ j) i)"
  shows "\<not> on_cycle f root ((f ^^ j) i)"
proof
  assume "on_cycle f root ((f ^^ j) i)"
  then obtain k where k: "k > 0" "(f ^^ k) ((f ^^ j) i) = (f ^^ j) i" by (auto simp: on_cycle_def)
  have "(f ^^ (k * m)) ((f ^^ j) i) = (f ^^ j) i" by (rule funpow_period_mult[OF k(2)])
  then have eq: "(f ^^ (k * m + j)) i = (f ^^ j) i" by (simp add: funpow_plus)
  have "m \<le> k * m" using k(1) by (cases k) simp_all
  then have "m \<le> k * m + j" by (rule trans_le_add1)
  then have "(f ^^ (k * m + j)) i = (f ^^ (k * m + j - m)) ((f ^^ m) i)"
    by (simp only: funpow_diff)
  moreover have "P ((f ^^ (k * m + j - m)) ((f ^^ m) i))"
    using closed_pow[OF closed cs _ _ Pm] chain_step_range[OF cs i, of m] by simp
  ultimately show False using eq nP by simp
qed

lemma same_class_refl: "same_class f root u u"
  by (simp add: same_class_def)

lemma orbit_back:
  assumes "on_cycle f root u" "(f ^^ k) u = v"
  shows "\<exists>k'. (f ^^ k') v = u"
proof -
  from assms(1) obtain p where p: "p > 0" "(f ^^ p) u = u" by (auto simp: on_cycle_def)
  have "(f ^^ (p * k)) u = u" by (rule funpow_period_mult[OF p(2)])
  moreover have "k \<le> p * k" using p(1) by (cases p) simp_all
  then have "(f ^^ (p * k - k)) ((f ^^ k) u) = (f ^^ (p * k)) u" by (rule funpow_diff)
  ultimately have "(f ^^ (p * k - k)) v = u" using assms(2) by simp
  then show ?thesis by blast
qed

lemma same_class_sym:
  assumes cs: "chain_step n root edges inEdge f" and sc: "same_class f root u v"
  shows "same_class f root v u"
proof (cases "u = v")
  case True
  then show ?thesis by (simp add: same_class_def)
next
  case False
  with sc obtain k where k: "on_cycle f root u" "(f ^^ k) u = v" by (auto simp: same_class_def)
  from on_cycle_pow[OF cs k(1), of k] k(2) have "on_cycle f root v" by simp
  moreover from orbit_back[OF k] have "\<exists>k'. (f ^^ k') v = u" .
  ultimately show ?thesis by (simp add: same_class_def)
qed

lemma same_class_trans:
  assumes "same_class f root u v" "same_class f root v w"
  shows "same_class f root u w"
proof (cases "u = v \<or> v = w")
  case True
  with assms show ?thesis by auto
next
  case False
  with assms obtain k k' where k: "on_cycle f root u" "(f ^^ k) u = v" "(f ^^ k') v = w"
    by (auto simp: same_class_def)
  then have "(f ^^ (k' + k)) u = w" by (simp add: funpow_plus)
  with k(1) show ?thesis unfolding same_class_def by blast
qed

lemma same_class_on_cycle:
  assumes cs: "chain_step n root edges inEdge f" and sc: "same_class f root u v"
  shows "on_cycle f root u = on_cycle f root v"
proof (cases "u = v")
  case True
  then show ?thesis by simp
next
  case False
  with sc obtain k where k: "on_cycle f root u" "(f ^^ k) u = v" by (auto simp: same_class_def)
  from on_cycle_pow[OF cs k(1), of k] k show ?thesis by simp
qed

lemma same_class_not_on_cycle:
  assumes cs: "chain_step n root edges inEdge f" and nc: "\<not> on_cycle f root u"
  shows "same_class f root u v = (u = v)" "same_class f root v u = (u = v)"
proof -
  show "same_class f root u v = (u = v)" using nc by (auto simp: same_class_def)
  show "same_class f root v u = (u = v)"
    using same_class_on_cycle[OF cs, of v u] nc by (auto simp: same_class_def)
qed

lemma same_class_range:
  assumes cs: "chain_step n root edges inEdge f" and sc: "same_class f root u v" and u: "0 \<le> u" "u < n"
  shows "0 \<le> v \<and> v < n"
proof (cases "u = v")
  case True
  with u show ?thesis by simp
next
  case False
  with sc obtain k where "(f ^^ k) u = v" by (auto simp: same_class_def)
  with chain_step_range[OF cs u, of k] show ?thesis by simp
qed

lemma funpow_mod_period:
  assumes "((f :: int \<Rightarrow> int) ^^ p) u = u"
  shows "(f ^^ k) u = (f ^^ (k mod p)) u"
proof -
  have "(f ^^ k) u = (f ^^ (k mod p + p * (k div p))) u" by simp
  also have "\<dots> = (f ^^ (k mod p)) ((f ^^ (p * (k div p))) u)" by (rule funpow_plus)
  also have "(f ^^ (p * (k div p))) u = u" by (rule funpow_period_mult[OF assms])
  finally show ?thesis .
qed

lemma least_period:
  assumes "on_cycle f root u"
  shows "\<exists>p>0. (f ^^ p) u = u \<and> (\<forall>j. 0 < j \<and> j < p \<longrightarrow> (f ^^ j) u \<noteq> u)"
proof -
  define P where "P = (\<lambda>k. k > 0 \<and> (f ^^ k) u = u)"
  from assms have ex: "\<exists>k. P k" by (auto simp: on_cycle_def P_def)
  define p where "p = (LEAST k. P k)"
  have "P p" unfolding p_def by (rule LeastI_ex[OF ex])
  moreover have "\<not> P j" if "j < p" for j using that not_less_Least unfolding p_def by blast
  ultimately show ?thesis unfolding P_def by blast
qed

lemma visited_invD:
  assumes "visited_inv n root f i visited"
  shows "n \<le> int (length visited)" "visited ! nat root = 2"
    "\<And>v. 0 \<le> v \<Longrightarrow> v < n \<Longrightarrow> visited ! nat v = 0 \<or> visited ! nat v = 2"
    "\<And>v. 0 \<le> v \<Longrightarrow> v < i \<Longrightarrow> v < n \<Longrightarrow> visited ! nat v = 2"
    "\<And>v. 0 \<le> v \<Longrightarrow> v < n \<Longrightarrow> visited ! nat v = 2 \<Longrightarrow> visited ! nat (f v) = 2"
  using assms unfolding visited_inv_def by blast+

lemma cycle_invD:
  assumes "cycle_inv n root f cycle visited cc"
  shows "n \<le> int (length cycle)" "0 \<le> cc"
    "\<And>v. 0 \<le> v \<Longrightarrow> v < n \<Longrightarrow> (cycle ! nat v \<noteq> - 1) = (visited ! nat v = 2 \<and> on_cycle f root v)"
    "(cc = 0) = (\<forall>v. 0 \<le> v \<and> v < n \<longrightarrow> cycle ! nat v = - 1)"
    "\<And>v. 0 \<le> v \<Longrightarrow> v < n \<Longrightarrow> cycle ! nat v < cc"
    "\<And>u v. 0 \<le> u \<Longrightarrow> u < n \<Longrightarrow> 0 \<le> v \<Longrightarrow> v < n \<Longrightarrow> cycle ! nat u \<noteq> - 1 \<Longrightarrow>
        cycle ! nat v \<noteq> - 1 \<Longrightarrow> (cycle ! nat u = cycle ! nat v) = same_class f root u v"
proof -
  note a = assms[unfolded cycle_inv_def]
  show "n \<le> int (length cycle)" by (rule a[THEN conjunct1])
  show "0 \<le> cc" by (rule a[THEN conjunct2, THEN conjunct1])
  show "\<And>v. 0 \<le> v \<Longrightarrow> v < n \<Longrightarrow> (cycle ! nat v \<noteq> - 1) = (visited ! nat v = 2 \<and> on_cycle f root v)"
    using a[THEN conjunct2, THEN conjunct2, THEN conjunct1] by simp
  show "(cc = 0) = (\<forall>v. 0 \<le> v \<and> v < n \<longrightarrow> cycle ! nat v = - 1)"
    by (rule a[THEN conjunct2, THEN conjunct2, THEN conjunct2, THEN conjunct1])
  show "\<And>v. 0 \<le> v \<Longrightarrow> v < n \<Longrightarrow> cycle ! nat v < cc"
    using a[THEN conjunct2, THEN conjunct2, THEN conjunct2, THEN conjunct2, THEN conjunct1] by simp
  show "\<And>u v. 0 \<le> u \<Longrightarrow> u < n \<Longrightarrow> 0 \<le> v \<Longrightarrow> v < n \<Longrightarrow> cycle ! nat u \<noteq> - 1 \<Longrightarrow>
        cycle ! nat v \<noteq> - 1 \<Longrightarrow> (cycle ! nat u = cycle ! nat v) = same_class f root u v"
    using a[THEN conjunct2, THEN conjunct2, THEN conjunct2, THEN conjunct2, THEN conjunct2] by simp
qed

text \<open>The two walks over \<^verbatim>\<open>visited\<close> from an unvisited vertex \<open>i\<close>.\<close>

lemma walk_and_settle:
  assumes cs: "chain_step n root edges inEdge f"
    and inv: "visited_inv n root f i visited"
    and i: "0 \<le> i" "i < n" and zero: "visited ! nat i = 0"
  shows "\<exists>m vis1 hc vis2.
           walk_chain edges inEdge visited i = Some (Ok (vis1, (f ^^ m) i, hc)) \<and>
           settle_chain edges inEdge vis1 i = Some (Ok vis2) \<and>
           0 < m \<and> inj_on (\<lambda>j. (f ^^ j) i) {..<m} \<and>
           (\<forall>j<m. visited ! nat ((f ^^ j) i) = 0 \<and> 0 \<le> (f ^^ j) i \<and> (f ^^ j) i < n \<and>
                   (f ^^ j) i \<noteq> root) \<and>
           0 \<le> (f ^^ m) i \<and> (f ^^ m) i < n \<and>
           length vis2 = length visited \<and>
           (\<forall>w. 0 \<le> w \<and> w < n \<longrightarrow>
               vis2 ! nat w = (if \<exists>j<m. w = (f ^^ j) i then 2 else visited ! nat w)) \<and>
           (if hc then \<exists>l<m. (f ^^ m) i = (f ^^ l) i else visited ! nat ((f ^^ m) i) = 2)"
proof -
  note vi = visited_invD[OF inv]
  have vals: "\<forall>v. 0 \<le> v \<and> v < n \<longrightarrow> visited ! nat v \<in> {0, 1, 2}"
    using vi(3) by auto
  from walk_chain_spec[OF cs vi(1) vi(2) vals i]
  obtain m vis1 hc where w:
    "walk_chain edges inEdge visited i = Some (Ok (vis1, (f ^^ m) i, hc))"
    "marked visited {(f ^^ j) i |j. j < m} 1 vis1"
    "inj_on (\<lambda>j. (f ^^ j) i) {..<m}"
    "\<forall>j<m. visited ! nat ((f ^^ j) i) = 0 \<and> 0 \<le> (f ^^ j) i \<and> (f ^^ j) i < n"
    "0 \<le> (f ^^ m) i" "(f ^^ m) i < n"
    "vis1 ! nat ((f ^^ m) i) = (if hc then 1 else 2)"
    by blast
  define C where "C = {(f ^^ j) i |j. j < m}"
  have w2: "marked visited C 1 vis1" using w(2) by (simp add: C_def)
  have len1: "length vis1 = length visited" by (rule marked_length[OF w(2)])
  have nth1: "vis1 ! nat x = (if x \<in> C then 1 else visited ! nat x)" if "0 \<le> x" "x < n" for x
    using marked_nth[OF w2, of x] that vi(1) by simp
  have inC: "(f ^^ j) i \<in> C" if "j < m" for j using that unfolding C_def by blast
  have C_iff: "x \<in> C \<longleftrightarrow> (\<exists>j<m. x = (f ^^ j) i)" for x unfolding C_def by blast
  have chain: "visited ! nat ((f ^^ j) i) = 0 \<and> 0 \<le> (f ^^ j) i \<and> (f ^^ j) i < n \<and> (f ^^ j) i \<noteq> root"
    if "j < m" for j
  proof -
    from w(4) that have *: "visited ! nat ((f ^^ j) i) = 0" "0 \<le> (f ^^ j) i" "(f ^^ j) i < n" by auto
    with vi(2) have "(f ^^ j) i \<noteq> root" by auto
    with * show ?thesis by simp
  qed
  have mpos: "0 < m"
  proof (rule ccontr)
    assume "\<not> 0 < m"
    then have m0: "m = 0" by simp
    then have "i \<notin> C" by (simp add: C_iff)
    then have "vis1 ! nat i = visited ! nat i" using nth1[OF i] by simp
    with w(7) m0 zero show False by (simp split: if_splits)
  qed
  have last: "if hc then \<exists>l<m. (f ^^ m) i = (f ^^ l) i else visited ! nat ((f ^^ m) i) = 2"
  proof (cases hc)
    case True
    with w(7) have one: "vis1 ! nat ((f ^^ m) i) = 1" by simp
    have "(f ^^ m) i \<in> C"
    proof (rule ccontr)
      assume "(f ^^ m) i \<notin> C"
      with nth1[OF w(5,6)] one have "visited ! nat ((f ^^ m) i) = 1" by simp
      with vi(3)[OF w(5,6)] show False by simp
    qed
    then show ?thesis using True by (simp add: C_iff)
  next
    case False
    with w(7) have two: "vis1 ! nat ((f ^^ m) i) = 2" by simp
    with nth1[OF w(5,6)] have "visited ! nat ((f ^^ m) i) = 2" by (simp split: if_splits)
    with False show ?thesis by simp
  qed
  have chain1: "\<forall>j<m. vis1 ! nat ((f ^^ j) i) \<noteq> 2 \<and> 0 \<le> (f ^^ j) i \<and> (f ^^ j) i < n \<and> (f ^^ j) i \<noteq> root"
  proof (intro allI impI)
    fix j assume j: "j < m"
    from chain[OF j] nth1[of "(f ^^ j) i"] inC[OF j]
    show "vis1 ! nat ((f ^^ j) i) \<noteq> 2 \<and> 0 \<le> (f ^^ j) i \<and> (f ^^ j) i < n \<and> (f ^^ j) i \<noteq> root"
      by simp
  qed
  have last1: "vis1 ! nat ((f ^^ m) i) = 2 \<or> (\<exists>l<m. (f ^^ m) i = (f ^^ l) i)"
    using last w(7) by (cases hc) simp_all
  have len1': "n \<le> int (length vis1)" using len1 vi(1) by simp
  from settle_chain_spec[OF cs len1' w(3) chain1 w(5,6) last1]
  obtain vis2 where s: "settle_chain edges inEdge vis1 i = Some (Ok vis2)" "marked vis1 C 2 vis2"
    unfolding C_def by blast
  have len2: "length vis2 = length visited" using marked_length[OF s(2)] len1 by simp
  have nth2: "\<forall>w. 0 \<le> w \<and> w < n \<longrightarrow>
               vis2 ! nat w = (if \<exists>j<m. w = (f ^^ j) i then 2 else visited ! nat w)"
  proof (intro allI impI)
    fix x assume x: "0 \<le> x \<and> x < n"
    then have "vis2 ! nat x = (if x \<in> C then 2 else vis1 ! nat x)"
      using marked_nth[OF s(2), of x] len1' by simp
    also have "\<dots> = (if x \<in> C then 2 else visited ! nat x)" using nth1[of x] x by simp
    also have "x \<in> C \<longleftrightarrow> (\<exists>j<m. x = (f ^^ j) i)" by (rule C_iff)
    finally show "vis2 ! nat x = (if \<exists>j<m. x = (f ^^ j) i then 2 else visited ! nat x)" .
  qed
  have chain': "\<forall>j<m. visited ! nat ((f ^^ j) i) = 0 \<and> 0 \<le> (f ^^ j) i \<and> (f ^^ j) i < n \<and>
                   (f ^^ j) i \<noteq> root"
    using chain by blast
  from w(1) s(1) mpos w(3) chain' w(5,6) len2 nth2 last show ?thesis by blast
qed

lemma visited_inv_step:
  assumes cs: "chain_step n root edges inEdge f"
    and inv: "visited_inv n root f i visited"
    and i: "0 \<le> i" "i < n"
    and mpos: "0 < m"
    and rng: "0 \<le> (f ^^ m) i" "(f ^^ m) i < n"
    and len2: "length vis2 = length visited"
    and nth2: "\<forall>w. 0 \<le> w \<and> w < n \<longrightarrow>
               vis2 ! nat w = (if \<exists>j<m. w = (f ^^ j) i then 2 else visited ! nat w)"
    and last: "(\<exists>l<m. (f ^^ m) i = (f ^^ l) i) \<or> visited ! nat ((f ^^ m) i) = 2"
  shows "visited_inv n root f (i + 1) vis2"
proof -
  note vi = visited_invD[OF inv]
  note rt = chain_step_root[OF cs]
  have nth: "vis2 ! nat w = (if \<exists>j<m. w = (f ^^ j) i then 2 else visited ! nat w)"
    if "0 \<le> w" "w < n" for w using nth2 that by blast
  have two: "vis2 ! nat w = 2" if "0 \<le> w" "w < n" "visited ! nat w = 2" for w
    using nth[OF that(1,2)] that(3) by simp
  have twoC: "vis2 ! nat ((f ^^ j) i) = 2" if "j < m" for j
  proof -
    have r: "0 \<le> (f ^^ j) i \<and> (f ^^ j) i < n" by (rule chain_step_range[OF cs i])
    have "\<exists>j'<m. (f ^^ j) i = (f ^^ j') i" using that by blast
    with nth[of "(f ^^ j) i"] r show ?thesis by simp
  qed
  have lastm: "vis2 ! nat ((f ^^ m) i) = 2"
    using last twoC two[OF rng] by auto
  have 1: "n \<le> int (length vis2)" using len2 vi(1) by simp
  have 2: "vis2 ! nat root = 2" by (rule two[OF rt(1,2) vi(2)])
  have 3: "\<forall>v. 0 \<le> v \<and> v < n \<longrightarrow> vis2 ! nat v = 0 \<or> vis2 ! nat v = 2"
  proof (intro allI impI)
    fix v assume v: "0 \<le> v \<and> v < n"
    with vi(3)[of v] nth[of v] show "vis2 ! nat v = 0 \<or> vis2 ! nat v = 2"
      by (simp split: if_splits)
  qed
  have 4: "\<forall>v. 0 \<le> v \<and> v < i + 1 \<and> v < n \<longrightarrow> vis2 ! nat v = 2"
  proof (intro allI impI)
    fix v assume v: "0 \<le> v \<and> v < i + 1 \<and> v < n"
    show "vis2 ! nat v = 2"
    proof (cases "v = i")
      case True
      with twoC[OF mpos] show ?thesis by simp
    next
      case False
      with v have "v < i" by simp
      with vi(4)[of v] v have "visited ! nat v = 2" by simp
      with two[of v] v show ?thesis by simp
    qed
  qed
  have 5: "\<forall>v. 0 \<le> v \<and> v < n \<and> vis2 ! nat v = 2 \<longrightarrow> vis2 ! nat (f v) = 2"
  proof (intro allI impI)
    fix v assume v: "0 \<le> v \<and> v < n \<and> vis2 ! nat v = 2"
    have fr: "0 \<le> f v \<and> f v < n" using chain_step_range[OF cs, of v 1] v by simp
    show "vis2 ! nat (f v) = 2"
    proof (cases "\<exists>j<m. v = (f ^^ j) i")
      case True
      then obtain j where j: "j < m" "v = (f ^^ j) i" by blast
      then have fv: "f v = (f ^^ Suc j) i" by simp
      show ?thesis
      proof (cases "Suc j < m")
        case True
        from twoC[OF True] fv show ?thesis by simp
      next
        case False
        with j have "Suc j = m" by simp
        with fv lastm show ?thesis by simp
      qed
    next
      case False
      with nth[of v] v have "visited ! nat v = 2" by simp
      with vi(5)[of v] v have "visited ! nat (f v) = 2" by simp
      with two[of "f v"] fr show ?thesis by simp
    qed
  qed
  from 1 2 3 4 5 show ?thesis unfolding visited_inv_def by blast
qed

lemma visited_inv_skip:
  assumes inv: "visited_inv n root f i visited" and "visited ! nat i \<noteq> 0" "0 \<le> i" "i < n"
  shows "visited_inv n root f (i + 1) visited"
proof -
  note vi = visited_invD[OF inv]
  have "\<forall>v. 0 \<le> v \<and> v < i + 1 \<and> v < n \<longrightarrow> visited ! nat v = 2"
  proof (intro allI impI)
    fix v assume v: "0 \<le> v \<and> v < i + 1 \<and> v < n"
    show "visited ! nat v = 2"
    proof (cases "v = i")
      case True
      with vi(3)[of i] assms show ?thesis by simp
    next
      case False
      with v vi(4)[of v] show ?thesis by simp
    qed
  qed
  with inv show ?thesis unfolding visited_inv_def by blast
qed

lemma cycle_inv_no_cycle:
  assumes cs: "chain_step n root edges inEdge f"
    and vinv: "visited_inv n root f i visited"
    and cinv: "cycle_inv n root f cycle visited cc"
    and i: "0 \<le> i" "i < n"
    and chain: "\<forall>j<m. visited ! nat ((f ^^ j) i) = 0 \<and> 0 \<le> (f ^^ j) i \<and> (f ^^ j) i < n \<and>
                   (f ^^ j) i \<noteq> root"
    and nth2: "\<forall>w. 0 \<le> w \<and> w < n \<longrightarrow>
               vis2 ! nat w = (if \<exists>j<m. w = (f ^^ j) i then 2 else visited ! nat w)"
    and last: "visited ! nat ((f ^^ m) i) = 2"
  shows "cycle_inv n root f cycle vis2 cc"
proof -
  note vi = visited_invD[OF vinv]
  note ci = cycle_invD[OF cinv]
  have closed: "\<forall>v. 0 \<le> v \<and> v < n \<and> visited ! nat v = 2 \<longrightarrow> visited ! nat (f v) = 2"
    using vi(5) by blast
  have main: "(cycle ! nat v \<noteq> - 1) = (vis2 ! nat v = 2 \<and> on_cycle f root v)" if v: "0 \<le> v" "v < n" for v
  proof (cases "\<exists>j<m. v = (f ^^ j) i")
    case True
    then obtain j where j: "j < m" "v = (f ^^ j) i" by blast
    with chain have z: "visited ! nat v = 0" by simp
    have "\<not> on_cycle f root ((f ^^ j) i)"
    proof (rule chain_into_closed[OF closed cs i, of j m])
      show "j \<le> m" using j by simp
      show "visited ! nat ((f ^^ m) i) = 2" by (rule last)
      show "visited ! nat ((f ^^ j) i) \<noteq> 2" using z j by simp
    qed
    moreover have "cycle ! nat v = - 1" using ci(3)[OF v] z by simp
    ultimately show ?thesis using j by simp
  next
    case False
    from nth2 v have "vis2 ! nat v = (if \<exists>j<m. v = (f ^^ j) i then 2 else visited ! nat v)"
      by blast
    with False have "vis2 ! nat v = visited ! nat v" by auto
    with ci(3)[OF v] show ?thesis by simp
  qed
  have 3: "\<forall>v. 0 \<le> v \<and> v < n \<longrightarrow>
        (cycle ! nat v \<noteq> - 1) = (vis2 ! nat v = 2 \<and> on_cycle f root v)"
    using main by blast
  note a = cinv[unfolded cycle_inv_def]
  show ?thesis unfolding cycle_inv_def
    by (intro conjI ci(1) ci(2) 3 ci(4) a[THEN conjunct2, THEN conjunct2, THEN conjunct2, THEN conjunct2, THEN conjunct1] a[THEN conjunct2, THEN conjunct2, THEN conjunct2, THEN conjunct2, THEN conjunct2])
qed

lemma cycle_inv_new_cycle:
  assumes cs: "chain_step n root edges inEdge f"
    and vinv: "visited_inv n root f i visited"
    and cinv: "cycle_inv n root f cycle visited cc"
    and i: "0 \<le> i" "i < n"
    and inj: "inj_on (\<lambda>j. (f ^^ j) i) {..<m}"
    and chain: "\<forall>j<m. visited ! nat ((f ^^ j) i) = 0 \<and> 0 \<le> (f ^^ j) i \<and> (f ^^ j) i < n \<and>
                   (f ^^ j) i \<noteq> root"
    and nth2: "\<forall>w. 0 \<le> w \<and> w < n \<longrightarrow>
               vis2 ! nat w = (if \<exists>j<m. w = (f ^^ j) i then 2 else visited ! nat w)"
    and lm: "l < m" and ret: "(f ^^ m) i = (f ^^ l) i"
    and mk: "marked cycle K cc cycle1"
    and K: "\<And>w. w \<in> K \<longleftrightarrow> (\<exists>y. l \<le> y \<and> y < m \<and> w = (f ^^ y) i)"
  shows "cycle_inv n root f cycle1 vis2 (cc + 1)"
proof -
  note vi = visited_invD[OF vinv]
  note ci = cycle_invD[OF cinv]
  have nthc: "cycle1 ! nat w = (if w \<in> K then cc else cycle ! nat w)" if "0 \<le> w" "w < n" for w
    using marked_nth[OF mk, of w] that ci(1) by simp
  have main: "(cycle1 ! nat v \<noteq> - 1) = (vis2 ! nat v = 2 \<and> on_cycle f root v)"
    if v: "0 \<le> v" "v < n" for v
  proof (cases "\<exists>j<m. v = (f ^^ j) i")
    case True
    then obtain j where j: "j < m" "v = (f ^^ j) i" by blast
    with chain have z: "visited ! nat v = 0" and nr: "(f ^^ j) i \<noteq> root" by simp_all
    have v2: "vis2 ! nat v = 2"
    proof -
      from nth2 v have "vis2 ! nat v = (if \<exists>j<m. v = (f ^^ j) i then 2 else visited ! nat v)"
        by blast
      with True show ?thesis by simp
    qed
    have old: "cycle ! nat v = - 1" using ci(3)[OF v] z by simp
    show ?thesis
    proof (cases "l \<le> j")
      case True
      then have "v \<in> K" using j K by blast
      with nthc[OF v] ci(2) have "cycle1 ! nat v \<noteq> - 1" by simp
      moreover have "on_cycle f root v" using lasso_cycle[OF ret lm True nr] j by simp
      ultimately show ?thesis using v2 by simp
    next
      case False
      then have jl: "j < l" by simp
      have "v \<notin> K"
      proof
        assume "v \<in> K"
        then obtain y where y: "l \<le> y" "y < m" "v = (f ^^ y) i" using K by blast
        with j have "(f ^^ j) i = (f ^^ y) i" by simp
        from chain_inj[OF inj j(1) y(2) this] jl y(1) show False by simp
      qed
      with nthc[OF v] old have "cycle1 ! nat v = - 1" by simp
      moreover have "\<not> on_cycle f root v" using lasso_tail[OF ret lm jl inj] j by simp
      ultimately show ?thesis by simp
    qed
  next
    case False
    then have "v \<notin> K" using K by force
    with nthc[OF v] have "cycle1 ! nat v = cycle ! nat v" by simp
    moreover have "vis2 ! nat v = visited ! nat v"
    proof -
      from nth2 v have "vis2 ! nat v = (if \<exists>j<m. v = (f ^^ j) i then 2 else visited ! nat v)"
        by blast
      with False show ?thesis by auto
    qed
    ultimately show ?thesis using ci(3)[OF v] by simp
  qed
  have "(f ^^ l) i \<in> K" using K lm by blast
  moreover have lr: "0 \<le> (f ^^ l) i \<and> (f ^^ l) i < n" by (rule chain_step_range[OF cs i])
  ultimately have "cycle1 ! nat ((f ^^ l) i) \<noteq> - 1" using nthc[of "(f ^^ l) i"] ci(2) by simp
  with lr have ex: "\<not> (\<forall>v. 0 \<le> v \<and> v < n \<longrightarrow> cycle1 ! nat v = - 1)" by blast
  have 1: "n \<le> int (length cycle1)" using marked_length[OF mk] ci(1) by simp
  have 2: "0 \<le> cc + 1" and nz: "cc + 1 \<noteq> 0" using ci(2) by simp_all
  have 3: "\<forall>v. 0 \<le> v \<and> v < n \<longrightarrow>
        (cycle1 ! nat v \<noteq> - 1) = (vis2 ! nat v = 2 \<and> on_cycle f root v)"
    using main by blast
  have 4: "(cc + 1 = 0) = (\<forall>v. 0 \<le> v \<and> v < n \<longrightarrow> cycle1 ! nat v = - 1)"
    using nz ex by simp
  have 5: "\<forall>v. 0 \<le> v \<and> v < n \<longrightarrow> cycle1 ! nat v < cc + 1"
  proof (intro allI impI)
    fix v assume v: "0 \<le> v \<and> v < n"
    with nthc[of v] ci(5)[of v] show "cycle1 ! nat v < cc + 1" by (simp split: if_splits)
  qed
  have lcyc: "on_cycle f root ((f ^^ l) i)"
  proof (rule lasso_cycle[OF ret lm])
    show "l \<le> l" by simp
    show "(f ^^ l) i \<noteq> root" using chain lm by simp
  qed
  have Kcls: "w \<in> K \<longleftrightarrow> same_class f root ((f ^^ l) i) w" for w
  proof
    assume "w \<in> K"
    then obtain y where y: "l \<le> y" "y < m" "w = (f ^^ y) i" using K by auto
    then have "(f ^^ (y - l)) ((f ^^ l) i) = w" by (simp add: funpow_diff)
    then have "\<exists>k. (f ^^ k) ((f ^^ l) i) = w" by (rule exI)
    with lcyc show "same_class f root ((f ^^ l) i) w" by (simp add: same_class_def)
  next
    assume "same_class f root ((f ^^ l) i) w"
    then consider "w = (f ^^ l) i" | k where "(f ^^ k) ((f ^^ l) i) = w" by (auto simp: same_class_def)
    then show "w \<in> K"
    proof cases
      case 1
      then show ?thesis using K[of w] lm by auto
    next
      case 2
      then have w: "w = (f ^^ (l + k)) i" by (simp add: funpow_plus add.commute)
      have "l \<le> l + k" by simp
      from lasso_stays[OF ret lm this] obtain y where "l \<le> y \<and> y < m \<and> (f ^^ (l + k)) i = (f ^^ y) i"
        by auto
      then show ?thesis using K[of w] w by auto
    qed
  qed
  have 6: "\<forall>u v. 0 \<le> u \<and> u < n \<and> 0 \<le> v \<and> v < n \<and> cycle1 ! nat u \<noteq> - 1 \<and> cycle1 ! nat v \<noteq> - 1 \<longrightarrow>
        (cycle1 ! nat u = cycle1 ! nat v) = same_class f root u v"
  proof (intro allI impI)
    fix u v assume a: "0 \<le> u \<and> u < n \<and> 0 \<le> v \<and> v < n \<and> cycle1 ! nat u \<noteq> - 1 \<and> cycle1 ! nat v \<noteq> - 1"
    show "(cycle1 ! nat u = cycle1 ! nat v) = same_class f root u v"
    proof (cases "u \<in> K")
      case uK: True
      then have su: "same_class f root ((f ^^ l) i) u" using Kcls by simp
      show ?thesis
      proof (cases "v \<in> K")
        case True
        then have "same_class f root ((f ^^ l) i) v" using Kcls by simp
        with same_class_sym[OF cs su] have "same_class f root u v" by (rule same_class_trans)
        with uK True nthc[of u] nthc[of v] a show ?thesis by simp
      next
        case False
        have "\<not> same_class f root u v"
        proof
          assume "same_class f root u v"
          with su have "same_class f root ((f ^^ l) i) v" by (rule same_class_trans)
          with False Kcls show False by simp
        qed
        moreover have "cycle1 ! nat u \<noteq> cycle1 ! nat v"
          using uK False nthc[of u] nthc[of v] a ci(5)[of v] by simp
        ultimately show ?thesis by simp
      qed
    next
      case uK: False
      show ?thesis
      proof (cases "v \<in> K")
        case True
        then have sv: "same_class f root ((f ^^ l) i) v" using Kcls by simp
        have "\<not> same_class f root u v"
        proof
          assume "same_class f root u v"
          from same_class_sym[OF cs this] have "same_class f root v u" .
          with sv have "same_class f root ((f ^^ l) i) u" by (rule same_class_trans)
          with uK Kcls show False by simp
        qed
        moreover have "cycle1 ! nat u \<noteq> cycle1 ! nat v"
          using uK True nthc[of u] nthc[of v] a ci(5)[of u] by simp
        ultimately show ?thesis by simp
      next
        case False
        with uK nthc[of u] nthc[of v] a ci(6)[of u v] show ?thesis by simp
      qed
    qed
  qed
  show ?thesis unfolding cycle_inv_def by (intro conjI 1 2 3 4 5 6)
qed

lemma detect_from_step:
  assumes cs: "chain_step n root edges inEdge f"
    and vinv: "visited_inv n root f i visited"
    and cinv: "cycle_inv n root f cycle visited cc"
    and i: "0 \<le> i" "i < n"
  shows "\<exists>cycle' visited' cc'.
           detect_from edges inEdge i (cycle, visited, cc) = Some (Ok (cycle', visited', cc')) \<and>
           visited_inv n root f (i + 1) visited' \<and> cycle_inv n root f cycle' visited' cc' \<and>
           length cycle' = length cycle \<and> length visited' = length visited"
proof -
  note vi = visited_invD[OF vinv]
  note ci = cycle_invD[OF cinv]
  have at: "vec_at visited i = Ok (visited ! nat i)" using i vi(1) by (simp add: vec_at_def)
  show ?thesis
  proof (cases "visited ! nat i = 0")
    case False
    then have "detect_from edges inEdge i (cycle, visited, cc) = Some (Ok (cycle, visited, cc))"
      by (simp add: detect_from_def at)
    moreover have "visited_inv n root f (i + 1) visited"
      by (rule visited_inv_skip[OF vinv False i])
    ultimately show ?thesis using cinv by blast
  next
    case True
    from walk_and_settle[OF cs vinv i True]
    obtain m vis1 hc vis2 where ws:
      "walk_chain edges inEdge visited i = Some (Ok (vis1, (f ^^ m) i, hc))"
      "settle_chain edges inEdge vis1 i = Some (Ok vis2)"
      "0 < m" "inj_on (\<lambda>j. (f ^^ j) i) {..<m}"
      "\<forall>j<m. visited ! nat ((f ^^ j) i) = 0 \<and> 0 \<le> (f ^^ j) i \<and> (f ^^ j) i < n \<and>
                   (f ^^ j) i \<noteq> root"
      "0 \<le> (f ^^ m) i" "(f ^^ m) i < n"
      "length vis2 = length visited"
      "\<forall>w. 0 \<le> w \<and> w < n \<longrightarrow>
               vis2 ! nat w = (if \<exists>j<m. w = (f ^^ j) i then 2 else visited ! nat w)"
      "if hc then \<exists>l<m. (f ^^ m) i = (f ^^ l) i else visited ! nat ((f ^^ m) i) = 2"
      by blast
    have last: "(\<exists>l<m. (f ^^ m) i = (f ^^ l) i) \<or> visited ! nat ((f ^^ m) i) = 2"
      using ws(10) by (cases hc) simp_all
    have vinv': "visited_inv n root f (i + 1) vis2"
      by (rule visited_inv_step[OF cs vinv i ws(3) ws(6,7) ws(8) ws(9) last])
    show ?thesis
    proof (cases hc)
      case False
      with ws(10) have l2: "visited ! nat ((f ^^ m) i) = 2" by simp
      have "detect_from edges inEdge i (cycle, visited, cc) = Some (Ok (cycle, vis2, cc))"
        using True False by (simp add: detect_from_def at ws(1,2))
      moreover have "cycle_inv n root f cycle vis2 cc"
        by (rule cycle_inv_no_cycle[OF cs vinv cinv i ws(5) ws(9) l2])
      ultimately show ?thesis using vinv' ws(8) by blast
    next
      case hc: True
      with ws(10) obtain l where l: "l < m" "(f ^^ m) i = (f ^^ l) i" by auto
      define u where "u = (f ^^ m) i"
      define r where "r = m - l - 1"
      have sr: "Suc r = m - l" using l(1) by (simp add: r_def)
      have upow: "(f ^^ j) u = (f ^^ (l + j)) i" for j
        unfolding u_def l(2) by (simp add: funpow_plus add.commute)
      have ret: "(f ^^ Suc r) u = u"
      proof -
        have "(f ^^ Suc r) u = (f ^^ (l + (m - l))) i" unfolding sr by (rule upow)
        also have "\<dots> = (f ^^ m) i" using l(1) by simp
        finally show ?thesis by (simp add: u_def)
      qed
      have first: "\<forall>j. 0 < j \<and> j \<le> r \<longrightarrow> (f ^^ j) u \<noteq> u"
      proof (intro allI impI notI)
        fix j assume j: "0 < j \<and> j \<le> r" and eq: "(f ^^ j) u = u"
        then have "(f ^^ (l + j)) i = (f ^^ l) i" using upow[of j] by (simp add: u_def l(2))
        moreover have "l + j < m" using j sr by arith
        ultimately have "l + j = l" using chain_inj[OF ws(4), of "l + j" l] l(1) by simp
        with j show False by simp
      qed
      have chainu: "\<forall>j\<le>r. 0 \<le> (f ^^ j) u \<and> (f ^^ j) u < n \<and> (f ^^ j) u \<noteq> root"
      proof (intro allI impI)
        fix j assume "j \<le> r"
        then have "l + j < m" using sr by arith
        with ws(5) have "0 \<le> (f ^^ (l + j)) i \<and> (f ^^ (l + j)) i < n \<and> (f ^^ (l + j)) i \<noteq> root"
          by simp
        then show "0 \<le> (f ^^ j) u \<and> (f ^^ j) u < n \<and> (f ^^ j) u \<noteq> root" by (simp add: upow)
      qed
      from mark_cycle_spec[OF cs ci(1) ret first chainu, of cc]
      obtain cycle1 where mc: "mark_cycle edges inEdge cc u cycle u = Some (Ok cycle1)"
        "marked cycle {(f ^^ j) u |j. j < Suc r} cc cycle1"
        by blast
      define K where "K = {(f ^^ j) u |j. j < Suc r}"
      have K: "w \<in> K \<longleftrightarrow> (\<exists>y. l \<le> y \<and> y < m \<and> w = (f ^^ y) i)" for w
      proof
        assume "w \<in> K"
        then obtain j where "j < Suc r" "w = (f ^^ j) u" unfolding K_def by blast
        moreover from this have "l + j < m" using sr by arith
        ultimately have "l \<le> l + j \<and> l + j < m \<and> w = (f ^^ (l + j)) i" by (simp add: upow)
        then show "\<exists>y. l \<le> y \<and> y < m \<and> w = (f ^^ y) i" by blast
      next
        assume "\<exists>y. l \<le> y \<and> y < m \<and> w = (f ^^ y) i"
        then obtain y where y: "l \<le> y" "y < m" "w = (f ^^ y) i" by blast
        then have "y - l < Suc r" using sr by arith
        moreover have "w = (f ^^ (y - l)) u" using y by (simp add: upow)
        ultimately have "y - l < Suc r" "w = (f ^^ (y - l)) u" by simp_all
        then show "w \<in> K" unfolding K_def by blast
      qed
      have mk: "marked cycle K cc cycle1" using mc(2) by (simp add: K_def)
      have "detect_from edges inEdge i (cycle, visited, cc) = Some (Ok (cycle1, vis2, cc + 1))"
        using True hc by (simp add: detect_from_def at ws(1,2) mc(1) u_def[symmetric])
      moreover have "cycle_inv n root f cycle1 vis2 (cc + 1)"
        by (rule cycle_inv_new_cycle[OF cs vinv cinv i ws(4) ws(5) ws(9) l mk K])
      moreover have "length cycle1 = length cycle" by (rule marked_length[OF mk])
      ultimately show ?thesis using vinv' ws(8) by blast
    qed
  qed
qed

lemma detect_cycles_spec:
  assumes cs: "chain_step n root edges inEdge f"
    and len: "n \<le> int (length cycle)" "n \<le> int (length visited)"
  shows "\<exists>cycle1 visited1 cc.
           detect_cycles n root edges inEdge cycle visited = Some (Ok (cycle1, visited1, cc)) \<and>
           length cycle1 = length cycle \<and> length visited1 = length visited \<and> 0 \<le> cc \<and>
           (\<forall>v. 0 \<le> v \<and> v < n \<longrightarrow> (cycle1 ! nat v \<noteq> - 1) = on_cycle f root v) \<and>
           ((cc = 0) = (\<forall>v. 0 \<le> v \<and> v < n \<longrightarrow> \<not> on_cycle f root v)) \<and>
           (\<forall>u v. 0 \<le> u \<and> u < n \<and> 0 \<le> v \<and> v < n \<and> cycle1 ! nat u \<noteq> - 1 \<and> cycle1 ! nat v \<noteq> - 1 \<longrightarrow>
              (cycle1 ! nat u = cycle1 ! nat v) = same_class f root u v)"
proof -
  note rt = chain_step_root[OF cs]
  let ?vis0 = "(replicate (length visited) (0::int))[nat root := 2]"
  let ?cy0 = "replicate (length cycle) (- 1 :: int)"
  have put: "vec_put (replicate (length visited) 0) root 2 = Ok ?vis0"
    using rt len by (simp add: vec_put_def)
  have nth0: "?vis0 ! nat v = (if v = root then 2 else 0)" if "0 \<le> v" "v < n" for v
    using nth_update_int[of root v "replicate (length visited) 0" 2] rt len that by simp
  have vinv0: "visited_inv n root f 0 ?vis0"
    unfolding visited_inv_def
  proof (intro conjI allI impI)
    show "n \<le> int (length ?vis0)" using len by simp
    show "?vis0 ! nat root = 2" using nth0[of root] rt by simp
  next
    fix v assume "0 \<le> v \<and> v < n"
    then show "?vis0 ! nat v = 0 \<or> ?vis0 ! nat v = 2" using nth0[of v] by simp
  next
    fix v assume "0 \<le> v \<and> v < 0 \<and> v < n"
    then show "?vis0 ! nat v = 2" by simp
  next
    fix v assume v: "0 \<le> v \<and> v < n \<and> ?vis0 ! nat v = 2"
    with nth0[of v] have "v = root" by (simp split: if_splits)
    then show "?vis0 ! nat (f v) = 2" using rt nth0[of root] by simp
  qed
  have cy0: "?cy0 ! nat v = - 1" if "0 \<le> v" "v < n" for v
    using that len by simp
  have cinv0: "cycle_inv n root f ?cy0 ?vis0 0"
    unfolding cycle_inv_def
  proof (intro conjI allI impI)
    show "n \<le> int (length ?cy0)" using len by simp
    show "(0::int) \<le> 0" by simp
    show "((0::int) = 0) = (\<forall>v. 0 \<le> v \<and> v < n \<longrightarrow> ?cy0 ! nat v = - 1)" using cy0 by simp
  next
    fix v assume "0 \<le> v \<and> v < n"
    then show "?cy0 ! nat v < 0" using cy0[of v] by simp
  next
    fix u v assume "0 \<le> u \<and> u < n \<and> 0 \<le> v \<and> v < n \<and> ?cy0 ! nat u \<noteq> - 1 \<and> ?cy0 ! nat v \<noteq> - 1"
    then show "(?cy0 ! nat u = ?cy0 ! nat v) = same_class f root u v" using cy0[of u] by simp
  next
    fix v assume v: "0 \<le> v \<and> v < n"
    have "\<not> (?vis0 ! nat v = 2 \<and> on_cycle f root v)"
      using nth0[of v] v by (auto simp: on_cycle_def)
    with cy0[of v] v show "(?cy0 ! nat v \<noteq> - 1) = (?vis0 ! nat v = 2 \<and> on_cycle f root v)"
      by simp
  qed
  define I where "I = (\<lambda>i (st :: int list \<times> int list \<times> int).
     case st of (cy, vis, cc) \<Rightarrow> visited_inv n root f i vis \<and> cycle_inv n root f cy vis cc \<and>
       length cy = length cycle \<and> length vis = length visited)"
  have "\<exists>t. for_each_opt [0..n - 1] (detect_from edges inEdge) (?cy0, ?vis0, 0) = Some (Ok t) \<and> I n t"
  proof (rule for_range_opt_rule)
    show "I 0 (?cy0, ?vis0, 0)" using vinv0 cinv0 by (simp add: I_def)
    show "0 \<le> n" using rt by simp
  next
    fix i t assume i: "0 \<le> i" "i < n" and It: "I i t"
    obtain cy vis cc where t: "t = (cy, vis, cc)" by (cases t) auto
    with It have inv: "visited_inv n root f i vis" "cycle_inv n root f cy vis cc"
      "length cy = length cycle" "length vis = length visited"
      by (simp_all add: I_def)
    from detect_from_step[OF cs inv(1,2) i]
    obtain cy' vis' cc' where
      "detect_from edges inEdge i (cy, vis, cc) = Some (Ok (cy', vis', cc'))"
      "visited_inv n root f (i + 1) vis'" "cycle_inv n root f cy' vis' cc'"
      "length cy' = length cy" "length vis' = length vis"
      by blast
    then show "\<exists>t'. detect_from edges inEdge i t = Some (Ok t') \<and> I (i + 1) t'"
      using t inv(3,4) by (simp add: I_def)
  qed
  then obtain cy vis cc where r:
    "for_each_opt [0..n - 1] (detect_from edges inEdge) (?cy0, ?vis0, 0) = Some (Ok (cy, vis, cc))"
    "visited_inv n root f n vis" "cycle_inv n root f cy vis cc"
    "length cy = length cycle" "length vis = length visited"
    by (auto simp: I_def)
  note vi = visited_invD[OF r(2)]
  note ci = cycle_invD[OF r(3)]
  have all2: "vis ! nat v = 2" if "0 \<le> v" "v < n" for v using vi(4)[OF that(1,2,2)] .
  have marks: "(cy ! nat v \<noteq> - 1) = on_cycle f root v" if "0 \<le> v" "v < n" for v
    using ci(3)[OF that] all2[OF that] by simp
  have zero: "(cc = 0) = (\<forall>v. 0 \<le> v \<and> v < n \<longrightarrow> \<not> on_cycle f root v)"
    using ci(4) marks by auto
  have "detect_cycles n root edges inEdge cycle visited = Some (Ok (cy, vis, cc))"
    by (simp add: detect_cycles_def put r(1))
  moreover have "\<forall>u v. 0 \<le> u \<and> u < n \<and> 0 \<le> v \<and> v < n \<and> cy ! nat u \<noteq> - 1 \<and> cy ! nat v \<noteq> - 1 \<longrightarrow>
              (cy ! nat u = cy ! nat v) = same_class f root u v"
    using ci(6) by blast
  moreover have "\<forall>v. 0 \<le> v \<and> v < n \<longrightarrow> (cy ! nat v \<noteq> - 1) = on_cycle f root v"
    using marks by blast
  ultimately show ?thesis using r(4,5) ci(2) zero by blast
qed

section \<open>Selections, the missing-edge check and the accumulation\<close>

lemma selectionD:
  assumes "selection n edges inEdge" "0 \<le> v" "v < n" "inEdge ! nat v \<noteq> - 1"
  shows "min_in_edge edges v (inEdge ! nat v)"
  using assms unfolding selection_def by (auto split: if_splits)

lemma selection_noneD:
  assumes "selection n edges inEdge" "0 \<le> v" "v < n" "inEdge ! nat v = - 1"
  shows "no_in_edge edges v"
  using assms unfolding selection_def by (auto split: if_splits)

lemma min_in_edgeD:
  assumes "min_in_edge edges v k"
  shows "0 \<le> k" "k < int (length edges)" "edges ! nat k \<in> set edges"
    "eto (edges ! nat k) = v" "efrom (edges ! nat k) \<noteq> v"
    "\<And>e. e \<in> set edges \<Longrightarrow> eto e = v \<Longrightarrow> efrom e \<noteq> v \<Longrightarrow> eweight (edges ! nat k) \<le> eweight e"
  using assms unfolding min_in_edge_def by auto

lemma valid_inputD:
  assumes "valid_input n root edges"
  shows "1 \<le> n" "0 \<le> root" "root < n"
    "\<And>e. e \<in> set edges \<Longrightarrow> 0 \<le> efrom e \<and> efrom e < n \<and> 0 \<le> eto e \<and> eto e < n"
  using assms unfolding valid_input_def by auto

lemma all_selectedD:
  assumes "all_selected n root edges inEdge"
  shows "valid_input n root edges" "n \<le> int (length inEdge)" "selection n edges inEdge"
    "\<And>v. 0 \<le> v \<Longrightarrow> v < n \<Longrightarrow> v \<noteq> root \<Longrightarrow> min_in_edge edges v (inEdge ! nat v)"
proof -
  show "valid_input n root edges" "n \<le> int (length inEdge)" "selection n edges inEdge"
    using assms unfolding all_selected_def by blast+
  fix v assume v: "0 \<le> v" "v < n" "v \<noteq> root"
  with assms have "inEdge ! nat v \<noteq> - 1" unfolding all_selected_def by blast
  with assms v show "min_in_edge edges v (inEdge ! nat v)"
    unfolding all_selected_def by (blast intro: selectionD)
qed

lemma selected_from_Ok:
  assumes "n \<le> int (length inEdge)" "0 \<le> v" "v < n" "min_in_edge edges v (inEdge ! nat v)"
  shows "selected_from edges inEdge v = Ok (efrom (selected edges inEdge v))"
  using assms min_in_edgeD(1,2)[OF assms(4)]
  by (simp add: selected_from_def vec_at_def selected_def)

lemma selected_weight_Ok:
  assumes "n \<le> int (length inEdge)" "0 \<le> v" "v < n" "min_in_edge edges v (inEdge ! nat v)"
  shows "selected_weight edges inEdge v = Ok (eweight (selected edges inEdge v))"
  using assms min_in_edgeD(1,2)[OF assms(4)]
  by (simp add: selected_weight_def vec_at_def selected_def)

lemma all_selected_chain_step:
  assumes "all_selected n root edges inEdge"
  shows "chain_step n root edges inEdge (parent root edges inEdge)"
  unfolding chain_step_def
proof (intro conjI allI impI)
  note as = all_selectedD[OF assms]
  note vi = valid_inputD[OF as(1)]
  show "0 \<le> root" "root < n" by (rule vi)+
  show "parent root edges inEdge root = root" by (simp add: parent_def)
  fix v assume v: "0 \<le> v \<and> v < n \<and> v \<noteq> root"
  then have m: "min_in_edge edges v (inEdge ! nat v)" using as(4) by blast
  have p: "parent root edges inEdge v = efrom (selected edges inEdge v)"
    using v by (simp add: parent_def selected_def)
  show "selected_from edges inEdge v = Ok (parent root edges inEdge v)"
    using selected_from_Ok[OF as(2) _ _ m] v p by simp
  from min_in_edgeD(3)[OF m] vi(4) have "0 \<le> efrom (selected edges inEdge v) \<and> efrom (selected edges inEdge v) < n"
    by (simp add: selected_def)
  then show "0 \<le> parent root edges inEdge v" "parent root edges inEdge v < n" using p by simp_all
  show "parent root edges inEdge v \<noteq> v" using min_in_edgeD(5)[OF m] p by (simp add: selected_def)
qed

lemma missing_inEdge_spec:
  assumes "\<forall>i \<in> set xs. 0 \<le> i \<and> i < int (length inEdge)"
  shows "missing_inEdge xs root inEdge = Ok (\<exists>i \<in> set xs. i \<noteq> root \<and> inEdge ! nat i = - 1)"
  using assms
proof (induction xs)
  case Nil
  then show ?case by simp
next
  case (Cons i xs)
  then have at: "vec_at inEdge i = Ok (inEdge ! nat i)" by (simp add: vec_at_def)
  from Cons have ih: "missing_inEdge xs root inEdge = Ok (\<exists>i \<in> set xs. i \<noteq> root \<and> inEdge ! nat i = - 1)"
    by simp
  show ?case by (auto simp: at ih)
qed

lemma missing_inEdge_range:
  assumes "n \<le> int (length inEdge)"
  shows "missing_inEdge [0..n - 1] root inEdge =
           Ok (\<exists>v. 0 \<le> v \<and> v < n \<and> v \<noteq> root \<and> inEdge ! nat v = - 1)"
proof -
  have "\<forall>i \<in> set [0..n - 1]. 0 \<le> i \<and> i < int (length inEdge)" using assms by auto
  from missing_inEdge_spec[OF this, of root]
  have "missing_inEdge [0..n - 1] root inEdge = Ok (\<exists>i \<in> set [0..n - 1]. i \<noteq> root \<and> inEdge ! nat i = - 1)" .
  moreover have "(\<exists>i \<in> set [0..n - 1]. i \<noteq> root \<and> inEdge ! nat i = - 1) =
        (\<exists>v. 0 \<le> v \<and> v < n \<and> v \<noteq> root \<and> inEdge ! nat v = - 1)"
    by auto
  ultimately show ?thesis by simp
qed

lemma wrap32_add: "wrap32 (wrap32 a + b) = wrap32 (a + b)"
proof -
  have "wrap32 a + b + 2147483648 = (a + 2147483648) mod 4294967296 + b"
    by (simp add: wrap32_def)
  then have "(wrap32 a + b + 2147483648) mod 4294967296 =
      ((a + 2147483648) mod 4294967296 + b) mod 4294967296" by (rule arg_cong)
  also have "\<dots> = (a + 2147483648 + b) mod 4294967296"
    by (rule mod_add_left_eq)
  also have "a + 2147483648 + b = a + b + 2147483648" by arith
  finally have "(wrap32 a + b + 2147483648) mod 4294967296 = (a + b + 2147483648) mod 4294967296" .
  then show ?thesis unfolding wrap32_def[of "wrap32 a + b"] wrap32_def[of "a + b"]
    by (rule arg_cong)
qed


lemma wrap32_id:
  assumes "- 2147483648 \<le> x" "x < 2147483648"
  shows "wrap32 x = x"
proof -
  from assms have "0 \<le> x + 2147483648" "x + 2147483648 < 4294967296" by simp_all
  then have "(x + 2147483648) mod 4294967296 = x + 2147483648" by (rule mod_pos_pos_trivial)
  then show ?thesis by (simp add: wrap32_def)
qed


lemma accumulate_spec:
  assumes as: "all_selected n root edges inEdge"
  shows "accumulate n root edges inEdge minWeight = Ok (accumulated n root edges inEdge minWeight)"
proof -
  note asd = all_selectedD[OF as]
  note vi = valid_inputD[OF asd(1)]
  let ?S = "\<lambda>i. \<Sum>v \<in> {0..<i} - {root}. eweight (selected edges inEdge v)"
  let ?I = "\<lambda>i t. t = (if {0..<i} - {root} = {} then minWeight else wrap32 (minWeight + ?S i))"
  have "\<exists>t. for_each [0..n - 1] (accumulate_step root edges inEdge) minWeight = Ok t \<and> ?I n t"
  proof (rule for_range_rule[where I = ?I])
    show "?I 0 minWeight" by simp
    show "0 \<le> n" using vi by simp
  next
    fix i t assume i: "0 \<le> i" "i < n" and t: "?I i t"
    have set: "{0..<i + 1} = insert i {0..<i}" using i by auto
    show "\<exists>t'. accumulate_step root edges inEdge i t = Ok t' \<and> ?I (i + 1) t'"
    proof (cases "i = root")
      case True
      then have "{0..<i + 1} - {root} = {0..<i} - {root}" using set by auto
      with True t show ?thesis by (simp add: accumulate_step_def)
    next
      case False
      from asd(4)[OF i False] have m: "min_in_edge edges i (inEdge ! nat i)" .
      note md = min_in_edgeD[OF m]
      have at: "vec_at inEdge i = Ok (inEdge ! nat i)" using i asd(2) by (simp add: vec_at_def)
      have ne: "inEdge ! nat i \<noteq> - 1" using md(1) by simp
      have at2: "vec_at edges (inEdge ! nat i) = Ok (selected edges inEdge i)"
        using md(1,2) by (simp add: vec_at_def selected_def)
      have step: "accumulate_step root edges inEdge i t = Ok (wrap32 (t + eweight (selected edges inEdge i)))"
        using False ne by (simp add: accumulate_step_def at at2)
      have ins: "{0..<i + 1} - {root} = insert i ({0..<i} - {root})" using set False by auto
      then have ne': "{0..<i + 1} - {root} \<noteq> {}" by simp
      have "i \<notin> {0..<i} - {root}" by simp
      with ins have sum: "?S (i + 1) = eweight (selected edges inEdge i) + ?S i" by simp
      have "wrap32 (t + eweight (selected edges inEdge i)) = wrap32 (minWeight + ?S (i + 1))"
      proof (cases "{0..<i} - {root} = {}")
        case True
        with t have "t = minWeight" by simp
        moreover have "?S i = 0" by (simp only: True sum.empty)
        ultimately show ?thesis using sum by simp
      next
        case False
        with t have "t = wrap32 (minWeight + ?S i)" by simp
        then have "wrap32 (t + eweight (selected edges inEdge i)) =
            wrap32 (minWeight + ?S i + eweight (selected edges inEdge i))"
          by (simp only: wrap32_add)
        also have "\<dots> = wrap32 (minWeight + ?S (i + 1))"
          by (simp only: sum add.assoc add.commute[of "?S i"])
        finally show ?thesis .
      qed
      with step ne' show ?thesis by simp
    qed
  qed
  then obtain t where t: "for_each [0..n - 1] (accumulate_step root edges inEdge) minWeight = Ok t"
    "?I n t" by blast
  have "({0..<n} - {root} = {}) = (n = 1)"
  proof
    assume e: "{0..<n} - {root} = {}"
    show "n = 1"
    proof (rule ccontr)
      assume "n \<noteq> 1"
      with vi(1) have "2 \<le> n" by simp
      have "\<exists>x. 0 \<le> x \<and> x < n \<and> x \<noteq> root"
      proof (cases "root = 0")
        case True
        with \<open>2 \<le> n\<close> have "0 \<le> (1 :: int) \<and> 1 < n \<and> 1 \<noteq> root" by simp
        then show ?thesis ..
      next
        case False
        with \<open>2 \<le> n\<close> have "0 \<le> (0 :: int) \<and> 0 < n \<and> 0 \<noteq> root" by simp
        then show ?thesis ..
      qed
      then obtain x where "x \<in> {0..<n} - {root}" by auto
      with e show False by blast
    qed
  next
    assume "n = 1"
    with vi(2,3) show "{0..<n} - {root} = {}" by auto
  qed
  with t show ?thesis by (simp add: accumulate_def selected_total_def accumulated_def)
qed


section \<open>The renumbering and the contracted edge list\<close>

lemma label_orbit:
  assumes cs: "chain_step n root edges inEdge f"
    and oc: "on_cycle f root i" and i: "0 \<le> i" "i < n"
    and len: "n \<le> int (length ids1)"
  shows "\<exists>ids2. label_cycle edges inEdge i num ids1 (f i) = Some (Ok ids2) \<and>
           length ids2 = length ids1 \<and>
           (\<forall>w. 0 \<le> w \<and> w < n \<longrightarrow>
              ids2 ! nat w = (if same_class f root i w \<and> w \<noteq> i then num else ids1 ! nat w))"
proof -
  from least_period[OF oc] obtain p where p: "p > 0" "(f ^^ p) i = i"
    "\<forall>j. 0 < j \<and> j < p \<longrightarrow> (f ^^ j) i \<noteq> i" by blast
  define r where "r = p - 1"
  have pr: "p = Suc r" using p(1) by (simp add: r_def)
  have ret: "(f ^^ r) (f i) = i" using p(2) pr by (simp add: funpow_swap1)
  have first: "\<forall>j<r. (f ^^ j) (f i) \<noteq> i"
  proof (intro allI impI)
    fix j assume "j < r"
    then have "0 < Suc j \<and> Suc j < p" using pr by simp
    with p(3) have "(f ^^ Suc j) i \<noteq> i" by blast
    then show "(f ^^ j) (f i) \<noteq> i" by (simp add: funpow_swap1)
  qed
  have chain: "\<forall>j<r. 0 \<le> (f ^^ j) (f i) \<and> (f ^^ j) (f i) < n \<and> (f ^^ j) (f i) \<noteq> root"
  proof (intro allI impI)
    fix j assume "j < r"
    have "on_cycle f root ((f ^^ Suc j) i)" by (rule on_cycle_pow[OF cs oc])
    then have "(f ^^ Suc j) i \<noteq> root" by (simp add: on_cycle_def)
    with chain_step_range[OF cs i, of "Suc j"]
    show "0 \<le> (f ^^ j) (f i) \<and> (f ^^ j) (f i) < n \<and> (f ^^ j) (f i) \<noteq> root"
      by (simp add: funpow_swap1)
  qed
  from label_cycle_spec[OF cs len ret first chain, of num]
  obtain ids2 where l: "label_cycle edges inEdge i num ids1 (f i) = Some (Ok ids2)"
    "marked ids1 {(f ^^ j) (f i) |j. j < r} num ids2" by blast
  define L where "L = {(f ^^ j) (f i) |j. j < r}"
  have L: "w \<in> L \<longleftrightarrow> same_class f root i w \<and> w \<noteq> i" for w
  proof
    assume "w \<in> L"
    then have "\<exists>j. j < r \<and> w = (f ^^ j) (f i)" unfolding L_def by auto
    then obtain j where j: "j < r" "w = (f ^^ j) (f i)" by (elim exE conjE)
    then have w: "w = (f ^^ Suc j) i" by (simp add: funpow_swap1)
    from j first have "w \<noteq> i" by auto
    moreover have "\<exists>k. (f ^^ k) i = w" using w by (intro exI[of _ "Suc j"]) simp
    then have "same_class f root i w" unfolding same_class_def using oc by simp
    ultimately show "same_class f root i w \<and> w \<noteq> i" by simp
  next
    assume a: "same_class f root i w \<and> w \<noteq> i"
    then obtain k where k: "(f ^^ k) i = w" by (auto simp: same_class_def)
    have km: "(f ^^ (k mod p)) i = w" using funpow_mod_period[OF p(2), of k] k by simp
    have "k mod p \<noteq> 0"
    proof
      assume "k mod p = 0"
      with km have "w = i" by simp
      with a show False by simp
    qed
    then obtain j where j: "k mod p = Suc j" by (cases "k mod p") simp_all
    have "k mod p < p" using p(1) by simp
    with j pr have "j < r" by simp
    moreover have "w = (f ^^ j) (f i)" using km j by (simp add: funpow_swap1)
    ultimately show "w \<in> L" unfolding L_def by auto
  qed
  have mk: "marked ids1 L num ids2" using l(2) by (simp add: L_def)
  have "ids2 ! nat w = (if same_class f root i w \<and> w \<noteq> i then num else ids1 ! nat w)"
    if "0 \<le> w" "w < n" for w
    using marked_nth[OF mk, of w] that len L[of w] by simp
  with l(1) marked_length[OF mk] show ?thesis by blast
qed

lemma ids_invD0:
  assumes "ids_inv n root f i ids num"
  shows "int (length ids) = n" "0 \<le> num"
    "\<forall>v. 0 \<le> v \<and> v < n \<longrightarrow> 0 \<le> ids ! nat v \<and> ids ! nat v \<le> num"
    "\<forall>v. 0 \<le> v \<and> v < n \<and> v < i \<longrightarrow> ids ! nat v \<noteq> 0"
    "\<forall>v. 0 \<le> v \<and> v < n \<and> ids ! nat v \<noteq> 0 \<longrightarrow>
        (\<exists>w. 0 \<le> w \<and> w < i \<and> w < n \<and> same_class f root w v)"
    "\<forall>u v. 0 \<le> u \<and> u < n \<and> 0 \<le> v \<and> v < n \<and> same_class f root u v \<longrightarrow>
        ids ! nat u = ids ! nat v"
    "\<forall>u v. 0 \<le> u \<and> u < n \<and> 0 \<le> v \<and> v < n \<and> ids ! nat u = ids ! nat v \<and> ids ! nat u \<noteq> 0 \<longrightarrow>
        same_class f root u v"
    "\<forall>k. 1 \<le> k \<and> k \<le> num \<longrightarrow> (\<exists>v. 0 \<le> v \<and> v < n \<and> ids ! nat v = k)"
proof -
  note a = assms[unfolded ids_inv_def]
  show "int (length ids) = n"
    by (rule a[THEN conjunct1])
  show "0 \<le> num"
    by (rule a[THEN conjunct2, THEN conjunct1])
  show "\<forall>v. 0 \<le> v \<and> v < n \<longrightarrow> 0 \<le> ids ! nat v \<and> ids ! nat v \<le> num"
    by (rule a[THEN conjunct2, THEN conjunct2, THEN conjunct1])
  show "\<forall>v. 0 \<le> v \<and> v < n \<and> v < i \<longrightarrow> ids ! nat v \<noteq> 0"
    by (rule a[THEN conjunct2, THEN conjunct2, THEN conjunct2, THEN conjunct1])
  show "\<forall>v. 0 \<le> v \<and> v < n \<and> ids ! nat v \<noteq> 0 \<longrightarrow>
        (\<exists>w. 0 \<le> w \<and> w < i \<and> w < n \<and> same_class f root w v)"
    by (rule a[THEN conjunct2, THEN conjunct2, THEN conjunct2, THEN conjunct2, THEN conjunct1])
  show "\<forall>u v. 0 \<le> u \<and> u < n \<and> 0 \<le> v \<and> v < n \<and> same_class f root u v \<longrightarrow>
        ids ! nat u = ids ! nat v"
    by (rule a[THEN conjunct2, THEN conjunct2, THEN conjunct2, THEN conjunct2, THEN conjunct2, THEN conjunct1])
  show "\<forall>u v. 0 \<le> u \<and> u < n \<and> 0 \<le> v \<and> v < n \<and> ids ! nat u = ids ! nat v \<and> ids ! nat u \<noteq> 0 \<longrightarrow>
        same_class f root u v"
    by (rule a[THEN conjunct2, THEN conjunct2, THEN conjunct2, THEN conjunct2, THEN conjunct2, THEN conjunct2, THEN conjunct1])
  show "\<forall>k. 1 \<le> k \<and> k \<le> num \<longrightarrow> (\<exists>v. 0 \<le> v \<and> v < n \<and> ids ! nat v = k)"
    by (rule a[THEN conjunct2, THEN conjunct2, THEN conjunct2, THEN conjunct2, THEN conjunct2, THEN conjunct2, THEN conjunct2])
qed

lemma ids_invD:
  assumes "ids_inv n root f i ids num"
  shows "int (length ids) = n" "0 \<le> num"
    "\<And>v. 0 \<le> v \<Longrightarrow> v < n \<Longrightarrow> 0 \<le> ids ! nat v \<and> ids ! nat v \<le> num"
    "\<And>v. 0 \<le> v \<Longrightarrow> v < n \<Longrightarrow> v < i \<Longrightarrow> ids ! nat v \<noteq> 0"
    "\<And>v. 0 \<le> v \<Longrightarrow> v < n \<Longrightarrow> ids ! nat v \<noteq> 0 \<Longrightarrow>
        \<exists>w. 0 \<le> w \<and> w < i \<and> w < n \<and> same_class f root w v"
    "\<And>u v. 0 \<le> u \<Longrightarrow> u < n \<Longrightarrow> 0 \<le> v \<Longrightarrow> v < n \<Longrightarrow> same_class f root u v \<Longrightarrow>
        ids ! nat u = ids ! nat v"
    "\<And>u v. 0 \<le> u \<Longrightarrow> u < n \<Longrightarrow> 0 \<le> v \<Longrightarrow> v < n \<Longrightarrow> ids ! nat u = ids ! nat v \<Longrightarrow>
        ids ! nat u \<noteq> 0 \<Longrightarrow> same_class f root u v"
    "\<And>k. 1 \<le> k \<Longrightarrow> k \<le> num \<Longrightarrow> \<exists>v. 0 \<le> v \<and> v < n \<and> ids ! nat v = k"
proof -
  note d = ids_invD0[OF assms]
  show "int (length ids) = n" "0 \<le> num" by (rule d)+
  show "\<And>v. 0 \<le> v \<Longrightarrow> v < n \<Longrightarrow> 0 \<le> ids ! nat v \<and> ids ! nat v \<le> num"
    using d(3) by simp
  show "\<And>v. 0 \<le> v \<Longrightarrow> v < n \<Longrightarrow> v < i \<Longrightarrow> ids ! nat v \<noteq> 0"
    using d(4) by simp
  show "\<And>v. 0 \<le> v \<Longrightarrow> v < n \<Longrightarrow> ids ! nat v \<noteq> 0 \<Longrightarrow>
        \<exists>w. 0 \<le> w \<and> w < i \<and> w < n \<and> same_class f root w v"
    using d(5) by simp
  show "\<And>u v. 0 \<le> u \<Longrightarrow> u < n \<Longrightarrow> 0 \<le> v \<Longrightarrow> v < n \<Longrightarrow> same_class f root u v \<Longrightarrow>
        ids ! nat u = ids ! nat v"
    using d(6) by simp
  show "\<And>u v. 0 \<le> u \<Longrightarrow> u < n \<Longrightarrow> 0 \<le> v \<Longrightarrow> v < n \<Longrightarrow> ids ! nat u = ids ! nat v \<Longrightarrow>
        ids ! nat u \<noteq> 0 \<Longrightarrow> same_class f root u v"
    using d(7) by simp
  show "\<And>k. 1 \<le> k \<Longrightarrow> k \<le> num \<Longrightarrow> \<exists>v. 0 \<le> v \<and> v < n \<and> ids ! nat v = k"
    using d(8) by simp
qed

lemma ids_inv_skip:
  assumes inv: "ids_inv n root f i ids num" and i: "0 \<le> i" "i < n" and nz: "ids ! nat i \<noteq> 0"
  shows "ids_inv n root f (i + 1) ids num"
proof -
  note d = ids_invD[OF inv]
  have 4: "\<forall>v. 0 \<le> v \<and> v < n \<and> v < i + 1 \<longrightarrow> ids ! nat v \<noteq> 0"
  proof (intro allI impI)
    fix v assume v: "0 \<le> v \<and> v < n \<and> v < i + 1"
    show "ids ! nat v \<noteq> 0"
    proof (cases "v = i")
      case True
      with nz show ?thesis by simp
    next
      case False
      with v d(4)[of v] show ?thesis by simp
    qed
  qed
  have 5: "\<forall>v. 0 \<le> v \<and> v < n \<and> ids ! nat v \<noteq> 0 \<longrightarrow>
        (\<exists>w. 0 \<le> w \<and> w < i + 1 \<and> w < n \<and> same_class f root w v)"
  proof (intro allI impI)
    fix v assume v: "0 \<le> v \<and> v < n \<and> ids ! nat v \<noteq> 0"
    with d(5)[of v] obtain w where "0 \<le> w \<and> w < i \<and> w < n \<and> same_class f root w v" by blast
    then have "0 \<le> w \<and> w < i + 1 \<and> w < n \<and> same_class f root w v" by simp
    then show "\<exists>w. 0 \<le> w \<and> w < i + 1 \<and> w < n \<and> same_class f root w v" ..
  qed
  note d0 = ids_invD0[OF inv]
  show ?thesis unfolding ids_inv_def by (intro conjI d0(1) d0(2) d0(3) 4 5 d0(6) d0(7) d0(8))
qed

lemma ids_inv_assign:
  assumes cs: "chain_step n root edges inEdge f"
    and inv: "ids_inv n root f i ids num" and i: "0 \<le> i" "i < n" and z: "ids ! nat i = 0"
    and len: "length ids' = length ids"
    and new: "\<forall>w. 0 \<le> w \<and> w < n \<longrightarrow>
                ids' ! nat w = (if same_class f root i w then num + 1 else ids ! nat w)"
  shows "ids_inv n root f (i + 1) ids' (num + 1)"
proof -
  note d = ids_invD[OF inv]
  have nth: "ids' ! nat w = (if same_class f root i w then num + 1 else ids ! nat w)"
    if "0 \<le> w" "w < n" for w using new that by blast
  have cls0: "ids ! nat w = 0" if "0 \<le> w" "w < n" "same_class f root i w" for w
    using d(6)[OF i that] z by simp
  have 3: "\<forall>v. 0 \<le> v \<and> v < n \<longrightarrow> 0 \<le> ids' ! nat v \<and> ids' ! nat v \<le> num + 1"
  proof (intro allI impI)
    fix v assume v: "0 \<le> v \<and> v < n"
    with d(3)[of v] d(2) nth[of v] show "0 \<le> ids' ! nat v \<and> ids' ! nat v \<le> num + 1"
      by (simp split: if_splits)
  qed
  have 4: "\<forall>v. 0 \<le> v \<and> v < n \<and> v < i + 1 \<longrightarrow> ids' ! nat v \<noteq> 0"
  proof (intro allI impI)
    fix v assume v: "0 \<le> v \<and> v < n \<and> v < i + 1"
    show "ids' ! nat v \<noteq> 0"
    proof (cases "same_class f root i v")
      case True
      with nth[of v] v d(2) show ?thesis by simp
    next
      case False
      then have "v \<noteq> i" by (auto simp: same_class_def)
      with v d(4)[of v] have "ids ! nat v \<noteq> 0" by simp
      with nth[of v] v False show ?thesis by simp
    qed
  qed
  have 5: "\<forall>v. 0 \<le> v \<and> v < n \<and> ids' ! nat v \<noteq> 0 \<longrightarrow>
        (\<exists>w. 0 \<le> w \<and> w < i + 1 \<and> w < n \<and> same_class f root w v)"
  proof (intro allI impI)
    fix v assume v: "0 \<le> v \<and> v < n \<and> ids' ! nat v \<noteq> 0"
    show "\<exists>w. 0 \<le> w \<and> w < i + 1 \<and> w < n \<and> same_class f root w v"
    proof (cases "same_class f root i v")
      case True
      with i have "0 \<le> i \<and> i < i + 1 \<and> i < n \<and> same_class f root i v" by simp
      then show ?thesis ..
    next
      case False
      with nth[of v] v have "ids ! nat v \<noteq> 0" by simp
      with d(5)[of v] v obtain w where "0 \<le> w \<and> w < i \<and> w < n \<and> same_class f root w v" by blast
      then have "0 \<le> w \<and> w < i + 1 \<and> w < n \<and> same_class f root w v" by simp
      then show ?thesis ..
    qed
  qed
  have eqv: "same_class f root i u = same_class f root i v" if "same_class f root u v" for u v
    using that same_class_trans[of f root i u v] same_class_trans[of f root i v u]
      same_class_sym[OF cs that] by blast
  have 6: "\<forall>u v. 0 \<le> u \<and> u < n \<and> 0 \<le> v \<and> v < n \<and> same_class f root u v \<longrightarrow>
        ids' ! nat u = ids' ! nat v"
  proof (intro allI impI)
    fix u v assume a: "0 \<le> u \<and> u < n \<and> 0 \<le> v \<and> v < n \<and> same_class f root u v"
    then have "same_class f root i u = same_class f root i v" using eqv by blast
    moreover have "ids ! nat u = ids ! nat v" using d(6)[of u v] a by simp
    ultimately show "ids' ! nat u = ids' ! nat v" using nth[of u] nth[of v] a by simp
  qed
  have 7: "\<forall>u v. 0 \<le> u \<and> u < n \<and> 0 \<le> v \<and> v < n \<and> ids' ! nat u = ids' ! nat v \<and> ids' ! nat u \<noteq> 0 \<longrightarrow>
        same_class f root u v"
  proof (intro allI impI)
    fix u v assume a: "0 \<le> u \<and> u < n \<and> 0 \<le> v \<and> v < n \<and> ids' ! nat u = ids' ! nat v \<and> ids' ! nat u \<noteq> 0"
    show "same_class f root u v"
    proof (cases "same_class f root i u")
      case True
      with nth[of u] a have "ids' ! nat v = num + 1" by simp
      with nth[of v] a d(3)[of v] have "same_class f root i v" by (simp split: if_splits)
      with same_class_sym[OF cs True] show ?thesis by (blast intro: same_class_trans)
    next
      case False
      with nth[of u] a have u: "ids' ! nat u = ids ! nat u" by simp
      with d(3)[of u] a have "ids' ! nat v \<le> num" by simp
      with nth[of v] a have "\<not> same_class f root i v" by (auto split: if_splits)
      with nth[of v] a have "ids' ! nat v = ids ! nat v" by simp
      with u a d(7)[of u v] show ?thesis by simp
    qed
  qed
  have 8: "\<forall>k. 1 \<le> k \<and> k \<le> num + 1 \<longrightarrow> (\<exists>v. 0 \<le> v \<and> v < n \<and> ids' ! nat v = k)"
  proof (intro allI impI)
    fix k assume k: "1 \<le> k \<and> k \<le> num + 1"
    show "\<exists>v. 0 \<le> v \<and> v < n \<and> ids' ! nat v = k"
    proof (cases "k = num + 1")
      case True
      with nth[OF i] i have "0 \<le> i \<and> i < n \<and> ids' ! nat i = k" by (simp add: same_class_refl)
      then show ?thesis ..
    next
      case False
      with k d(8)[of k] obtain v where v: "0 \<le> v \<and> v < n \<and> ids ! nat v = k" by auto
      have "\<not> same_class f root i v"
      proof
        assume "same_class f root i v"
        with cls0[of v] v k show False by simp
      qed
      with nth[of v] v have "0 \<le> v \<and> v < n \<and> ids' ! nat v = k" by simp
      then show ?thesis ..
    qed
  qed
  have 1: "int (length ids') = n" using len d(1) by simp
  have 2: "0 \<le> num + 1" using d(2) by simp
  show ?thesis unfolding ids_inv_def by (intro conjI 1 2 3 4 5 6 7 8)
qed

lemma assign_id_step:
  assumes cs: "chain_step n root edges inEdge f"
    and cyc: "n \<le> int (length cycle)"
      "\<forall>v. 0 \<le> v \<and> v < n \<longrightarrow> (cycle ! nat v \<noteq> - 1) = on_cycle f root v"
    and inv: "ids_inv n root f i ids num" and i: "0 \<le> i" "i < n"
  shows "\<exists>ids' num'. assign_id edges inEdge cycle i (ids, num) = Some (Ok (ids', num')) \<and>
           ids_inv n root f (i + 1) ids' num'"
proof -
  note d = ids_invD[OF inv]
  have atc: "vec_at cycle i = Ok (cycle ! nat i)" using i cyc(1) by (simp add: vec_at_def)
  have ati: "vec_at ids i = Ok (ids ! nat i)" using i d(1) by (simp add: vec_at_def)
  have oc: "(cycle ! nat i \<noteq> - 1) = on_cycle f root i" using cyc(2) i by blast
  let ?ids1 = "ids[nat i := num + 1]"
  have put: "vec_put ids i (num + 1) = Ok ?ids1" using i d(1) by (simp add: vec_put_def)
  have nth1: "?ids1 ! nat w = (if w = i then num + 1 else ids ! nat w)" if "0 \<le> w" "w < n" for w
    using nth_update_int[of i w ids "num + 1"] i d(1) that by simp
  show ?thesis
  proof (cases "on_cycle f root i")
    case False
    have z: "ids ! nat i = 0"
    proof (rule ccontr)
      assume "ids ! nat i \<noteq> 0"
      from d(5)[OF i this] obtain w where w: "0 \<le> w \<and> w < i \<and> w < n \<and> same_class f root w i" by blast
      with same_class_not_on_cycle(2)[OF cs False, of w] show False by simp
    qed
    have new: "\<forall>w. 0 \<le> w \<and> w < n \<longrightarrow>
                ?ids1 ! nat w = (if same_class f root i w then num + 1 else ids ! nat w)"
    proof (intro allI impI)
      fix w assume w: "0 \<le> w \<and> w < n"
      have "same_class f root i w = (w = i)"
        using same_class_not_on_cycle(1)[OF cs False, of w] by auto
      with nth1[of w] w show "?ids1 ! nat w = (if same_class f root i w then num + 1 else ids ! nat w)"
        by simp
    qed
    have "ids_inv n root f (i + 1) ?ids1 (num + 1)"
      by (rule ids_inv_assign[OF cs inv i z _ new]) simp
    moreover have "assign_id edges inEdge cycle i (ids, num) = Some (Ok (?ids1, num + 1))"
      using False oc by (simp add: assign_id_def atc put)
    ultimately show ?thesis by blast
  next
    case True
    show ?thesis
    proof (cases "ids ! nat i = 0")
      case False
      have "ids_inv n root f (i + 1) ids num" by (rule ids_inv_skip[OF inv i False])
      moreover have "assign_id edges inEdge cycle i (ids, num) = Some (Ok (ids, num))"
        using True oc False by (simp add: assign_id_def atc ati)
      ultimately show ?thesis by blast
    next
      case z: True
      from True have nr: "i \<noteq> root" by (simp add: on_cycle_def)
      from chain_stepD[OF cs i nr] have sf: "selected_from edges inEdge i = Ok (f i)" by simp
      have len1: "n \<le> int (length ?ids1)" using d(1) by simp
      from label_orbit[OF cs True i len1, of "num + 1"]
      obtain ids2 where l: "label_cycle edges inEdge i (num + 1) ?ids1 (f i) = Some (Ok ids2)"
        "length ids2 = length ?ids1"
        "\<forall>w. 0 \<le> w \<and> w < n \<longrightarrow>
              ids2 ! nat w = (if same_class f root i w \<and> w \<noteq> i then num + 1 else ?ids1 ! nat w)"
        by blast
      have new: "\<forall>w. 0 \<le> w \<and> w < n \<longrightarrow>
                ids2 ! nat w = (if same_class f root i w then num + 1 else ids ! nat w)"
      proof (intro allI impI)
        fix w assume w: "0 \<le> w \<and> w < n"
        with l(3) have "ids2 ! nat w = (if same_class f root i w \<and> w \<noteq> i then num + 1 else ?ids1 ! nat w)"
          by blast
        with nth1[of w] w show "ids2 ! nat w = (if same_class f root i w then num + 1 else ids ! nat w)"
          by (auto simp: same_class_refl)
      qed
      have "ids_inv n root f (i + 1) ids2 (num + 1)"
        by (rule ids_inv_assign[OF cs inv i z _ new]) (simp add: l(2))
      moreover have "assign_id edges inEdge cycle i (ids, num) = Some (Ok (ids2, num + 1))"
        using True oc z by (simp add: assign_id_def atc ati put sf l(1))
      ultimately show ?thesis by blast
    qed
  qed
qed

lemma same_class_ids:
  assumes "ids_inv n root f n ids num"
  shows "ids_result n root f ids num"
proof -
  note d = ids_invD[OF assms]
  have 2: "\<forall>v. 0 \<le> v \<and> v < n \<longrightarrow> 1 \<le> ids ! nat v \<and> ids ! nat v \<le> num"
  proof (intro allI impI)
    fix v assume v: "0 \<le> v \<and> v < n"
    with d(3)[of v] d(4)[of v] show "1 \<le> ids ! nat v \<and> ids ! nat v \<le> num" by simp
  qed
  have 3: "\<forall>u v. 0 \<le> u \<and> u < n \<and> 0 \<le> v \<and> v < n \<longrightarrow>
        (ids ! nat u = ids ! nat v) = same_class f root u v"
  proof (intro allI impI)
    fix u v assume a: "0 \<le> u \<and> u < n \<and> 0 \<le> v \<and> v < n"
    then have "ids ! nat u \<noteq> 0" using d(4)[of u] by simp
    with a d(6)[of u v] d(7)[of u v] show "(ids ! nat u = ids ! nat v) = same_class f root u v"
      by auto
  qed
  have 4: "\<forall>k. 1 \<le> k \<and> k \<le> num \<longrightarrow> (\<exists>v. 0 \<le> v \<and> v < n \<and> ids ! nat v = k)"
    using ids_invD0(8)[OF assms] .
  show ?thesis unfolding ids_result_def by (intro conjI d(1) 2 3 4)
qed

lemma assign_ids_spec:
  assumes cs: "chain_step n root edges inEdge f"
    and cyc: "n \<le> int (length cycle)"
      "\<forall>v. 0 \<le> v \<and> v < n \<longrightarrow> (cycle ! nat v \<noteq> - 1) = on_cycle f root v"
  shows "\<exists>ids num. assign_ids n edges inEdge cycle = Some (Ok (ids, num)) \<and>
           ids_result n root f ids num"
proof -
  note rt = chain_step_root[OF cs]
  define I where "I = (\<lambda>i (st :: int list \<times> int). case st of (ids, num) \<Rightarrow> ids_inv n root f i ids num)"
  have rep: "replicate (nat n) (0::int) ! nat v = 0" if "0 \<le> v" "v < n" for v
    using that by simp
  have init: "ids_inv n root f 0 (replicate (nat n) 0) 0"
    unfolding ids_inv_def using rt rep by auto
  have "\<exists>t. for_each_opt [0..n - 1] (assign_id edges inEdge cycle) (replicate (nat n) 0, 0) = Some (Ok t) \<and> I n t"
  proof (rule for_range_opt_rule)
    show "I 0 (replicate (nat n) 0, 0)" using init by (simp add: I_def)
    show "0 \<le> n" using rt by simp
  next
    fix i t assume i: "0 \<le> i" "i < n" and It: "I i t"
    obtain ids num where t: "t = (ids, num)" by (cases t) auto
    with It have inv: "ids_inv n root f i ids num" by (simp add: I_def)
    from assign_id_step[OF cs cyc inv i]
    obtain ids' num' where "assign_id edges inEdge cycle i (ids, num) = Some (Ok (ids', num'))"
      "ids_inv n root f (i + 1) ids' num'" by blast
    then show "\<exists>t'. assign_id edges inEdge cycle i t = Some (Ok t') \<and> I (i + 1) t'"
      using t by (simp add: I_def)
  qed
  then obtain ids num where r:
    "for_each_opt [0..n - 1] (assign_id edges inEdge cycle) (replicate (nat n) 0, 0) = Some (Ok (ids, num))"
    "ids_inv n root f n ids num"
    by (auto simp: I_def)
  from r(1) same_class_ids[OF r(2)] show ?thesis by (auto simp: assign_ids_def)
qed

lemma selection_of_edge:
  assumes v: "valid_input n root edges" and sel: "selection n edges inEdge"
    and e: "e \<in> set edges" "efrom e \<noteq> eto e"
  shows "min_in_edge edges (eto e) (inEdge ! nat (eto e))"
proof -
  from valid_inputD(4)[OF v e(1)] have r: "0 \<le> eto e" "eto e < n" by simp_all
  have "inEdge ! nat (eto e) \<noteq> - 1"
  proof
    assume "inEdge ! nat (eto e) = - 1"
    from selection_noneD[OF sel r this] e show False by (auto simp: no_in_edge_def)
  qed
  from selectionD[OF sel r this] show ?thesis .
qed

lemma contract_edge_spec:
  assumes v: "valid_input n root edges" and sel: "selection n edges inEdge"
    and len: "n \<le> int (length inEdge)" "int (length ids) = n"
    and e: "e \<in> set edges"
  shows "contract_edge edges inEdge ids e acc =
           Ok (if crossing ids e then acc @ [contract_one edges inEdge ids e] else acc)"
proof -
  from valid_inputD(4)[OF v e] have r: "0 \<le> efrom e" "efrom e < n" "0 \<le> eto e" "eto e < n"
    by simp_all
  have at1: "vec_at ids (efrom e) = Ok (ids ! nat (efrom e))" using r len by (simp add: vec_at_def)
  have at2: "vec_at ids (eto e) = Ok (ids ! nat (eto e))" using r len by (simp add: vec_at_def)
  show ?thesis
  proof (cases "crossing ids e")
    case False
    then show ?thesis by (simp add: contract_edge_def at1 at2 crossing_def)
  next
    case True
    then have "efrom e \<noteq> eto e" by (auto simp: crossing_def)
    from selection_of_edge[OF v sel e this] have m: "min_in_edge edges (eto e) (inEdge ! nat (eto e))" .
    from selected_weight_Ok[OF len(1) r(3,4) m]
    have sw: "selected_weight edges inEdge (eto e) = Ok (eweight (selected edges inEdge (eto e)))" .
    from True show ?thesis
      by (simp add: contract_edge_def at1 at2 crossing_def sw contract_one_def Let_def)
  qed
qed

lemma contract_edges_prefix:
  assumes v: "valid_input n root edges" and sel: "selection n edges inEdge"
    and len: "n \<le> int (length inEdge)" "int (length ids) = n"
    and sub: "set es \<subseteq> set edges"
  shows "for_each es (contract_edge edges inEdge ids) acc =
           Ok (acc @ map (contract_one edges inEdge ids) (filter (crossing ids) es))"
  using sub
proof (induction es arbitrary: acc)
  case Nil
  then show ?case by simp
next
  case (Cons e es)
  then have e: "e \<in> set edges" and sub': "set es \<subseteq> set edges" by simp_all
  show ?case
    by (simp add: contract_edge_spec[OF v sel len e] Cons.IH[OF sub'])
qed

lemma contract_edges_spec:
  assumes v: "valid_input n root edges" and sel: "selection n edges inEdge"
    and len: "n \<le> int (length inEdge)" "int (length ids) = n"
  shows "contract_edges edges inEdge ids = Ok (contracted edges inEdge ids)"
  using contract_edges_prefix[OF v sel len, of edges "[]"]
  by (simp add: contract_edges_def contracted_def)

lemma ids_resultD:
  assumes "ids_result n root f ids num"
  shows "int (length ids) = n"
    "\<And>v. 0 \<le> v \<Longrightarrow> v < n \<Longrightarrow> 1 \<le> ids ! nat v \<and> ids ! nat v \<le> num"
    "\<And>u v. 0 \<le> u \<Longrightarrow> u < n \<Longrightarrow> 0 \<le> v \<Longrightarrow> v < n \<Longrightarrow>
        (ids ! nat u = ids ! nat v) = same_class f root u v"
    "\<And>k. 1 \<le> k \<Longrightarrow> k \<le> num \<Longrightarrow> \<exists>v. 0 \<le> v \<and> v < n \<and> ids ! nat v = k"
proof -
  note a = assms[unfolded ids_result_def]
  show "int (length ids) = n" by (rule a[THEN conjunct1])
  show "\<And>v. 0 \<le> v \<Longrightarrow> v < n \<Longrightarrow> 1 \<le> ids ! nat v \<and> ids ! nat v \<le> num"
    using a[THEN conjunct2, THEN conjunct1] by simp
  show "\<And>u v. 0 \<le> u \<Longrightarrow> u < n \<Longrightarrow> 0 \<le> v \<Longrightarrow> v < n \<Longrightarrow>
        (ids ! nat u = ids ! nat v) = same_class f root u v"
    using a[THEN conjunct2, THEN conjunct2, THEN conjunct1] by simp
  show "\<And>k. 1 \<le> k \<Longrightarrow> k \<le> num \<Longrightarrow> \<exists>v. 0 \<le> v \<and> v < n \<and> ids ! nat v = k"
    using a[THEN conjunct2, THEN conjunct2, THEN conjunct2] by simp
qed

lemma ids_result_count:
  assumes ir: "ids_result n root f ids num" and n: "1 \<le> n"
  shows "1 \<le> num" "num \<le> n"
    "\<And>u v. 0 \<le> u \<Longrightarrow> u < n \<Longrightarrow> 0 \<le> v \<Longrightarrow> v < n \<Longrightarrow> u \<noteq> v \<Longrightarrow> same_class f root u v \<Longrightarrow> num < n"
proof -
  note d = ids_resultD[OF ir]
  define g where "g = (\<lambda>v. ids ! nat v)"
  show "1 \<le> num" using d(2)[of 0] n by simp
  have sub: "{1..num} \<subseteq> g ` {0..<n}"
  proof
    fix k assume "k \<in> {1..num}"
    then have "1 \<le> k" "k \<le> num" by simp_all
    from d(4)[OF this] obtain v where "0 \<le> v \<and> v < n \<and> ids ! nat v = k" by blast
    then show "k \<in> g ` {0..<n}" unfolding g_def by force
  qed
  have "card {1..num} \<le> card (g ` {0..<n})" by (rule card_mono[OF _ sub]) simp
  then have c1: "nat num \<le> card (g ` {0..<n})" by simp
  have c2: "card (g ` {0..<n}) \<le> card {0..<n}" by (rule card_image_le) simp
  from c1 c2 n show "num \<le> n" by simp
  fix u v assume uv: "0 \<le> u" "u < n" "0 \<le> v" "v < n" "u \<noteq> v" "same_class f root u v"
  have "g u = g v" using d(3)[OF uv(1-4)] uv(6) by (simp add: g_def)
  moreover have "u \<in> {0..<n}" "v \<in> {0..<n}" using uv by simp_all
  ultimately have "\<not> inj_on g {0..<n}" using uv(5) by (meson inj_onD)
  then have "card (g ` {0..<n}) \<noteq> card {0..<n}"
    using eq_card_imp_inj_on[of "{0..<n}" g] by auto
  with c2 have "card (g ` {0..<n}) < card {0..<n}" by simp
  with c1 show "num < n" by simp
qed

lemma contracted_valid:
  assumes cs: "chain_step n root edges inEdge f"
    and v: "valid_input n root edges" and ir: "ids_result n root f ids num"
  shows "valid_input num (ids ! nat root - 1) (contracted edges inEdge ids)"
proof -
  note vd = valid_inputD[OF v]
  note d = ids_resultD[OF ir]
  note c = ids_result_count[OF ir vd(1)]
  have rng: "0 \<le> ids ! nat x - 1 \<and> ids ! nat x - 1 < num" if "0 \<le> x" "x < n" for x
    using d(2)[OF that] by simp
  have "0 \<le> efrom e' \<and> efrom e' < num \<and> 0 \<le> eto e' \<and> eto e' < num"
    if "e' \<in> set (contracted edges inEdge ids)" for e'
  proof -
    from that obtain e where e: "e \<in> set edges" "e' = contract_one edges inEdge ids e"
      by (auto simp: contracted_def)
    from vd(4)[OF e(1)] rng[of "efrom e"] rng[of "eto e"] e(2) show ?thesis
      by (simp add: contract_one_def)
  qed
  with c(1) rng[OF vd(2,3)] show ?thesis unfolding valid_input_def by blast
qed

section \<open>One iteration of the loop\<close>

lemma select_phase:
  assumes v: "valid_input n root edges" and len: "n \<le> int (length inEdge)"
  shows "\<exists>ie0 ie. reset_inEdge n inEdge = Ok ie0 \<and> select_inEdge edges ie0 = Ok ie \<and>
           length ie = length inEdge \<and> selection n edges ie"
proof -
  note vd = valid_inputD[OF v]
  have n0: "0 \<le> n" using vd(1) by simp
  from reset_inEdge_spec[OF n0 len] obtain ie0 where r: "reset_inEdge n inEdge = Ok ie0"
    "length ie0 = length inEdge" "\<forall>v. 0 \<le> v \<and> v < n \<longrightarrow> ie0 ! nat v = - 1" by blast
  have len0: "n \<le> int (length ie0)" using r(2) len by simp
  from select_inEdge_spec[OF v len0 r(3)] obtain ie where s: "select_inEdge edges ie0 = Ok ie"
    "length ie = length ie0" "selection n edges ie" by blast
  with r show ?thesis by simp
qed

lemma iteration_spec:
  assumes v: "valid_input n root edges"
    and len: "n \<le> int (length inEdge)" "n \<le> int (length cycle)" "n \<le> int (length visited)"
  shows "\<exists>ie. length ie = length inEdge \<and> selection n edges ie \<and>
     (if \<exists>v. 0 \<le> v \<and> v < n \<and> v \<noteq> root \<and> ie ! nat v = - 1
      then iteration n root edges minWeight inEdge cycle visited = Some (Ok (Return NoArborescence))
      else all_selected n root edges ie \<and>
        (if \<forall>v. 0 \<le> v \<and> v < n \<longrightarrow> \<not> on_cycle (parent root edges ie) root v
         then iteration n root edges minWeight inEdge cycle visited =
                Some (Ok (Return (TotalWeight (accumulated n root edges ie minWeight))))
         else \<exists>ids num cy vi.
                ids_result n root (parent root edges ie) ids num \<and>
                length cy = length cycle \<and> length vi = length visited \<and>
                (\<forall>v. 0 \<le> v \<and> v < n \<longrightarrow> (cy ! nat v \<noteq> - 1) = on_cycle (parent root edges ie) root v) \<and>
                (\<forall>u v. 0 \<le> u \<and> u < n \<and> 0 \<le> v \<and> v < n \<and> cy ! nat u \<noteq> - 1 \<and> cy ! nat v \<noteq> - 1 \<longrightarrow>
                   (cy ! nat u = cy ! nat v) = same_class (parent root edges ie) root u v) \<and>
                iteration n root edges minWeight inEdge cycle visited =
                  Some (Ok (Continue num (ids ! nat root - 1) (contracted edges ie ids)
                              (accumulated n root edges ie minWeight) ie cy vi))))"
proof -
  note vd = valid_inputD[OF v]
  from select_phase[OF v len(1)] obtain ie0 ie where s: "reset_inEdge n inEdge = Ok ie0"
    "select_inEdge edges ie0 = Ok ie" "length ie = length inEdge" "selection n edges ie" by blast
  have lenie: "n \<le> int (length ie)" using s(3) len(1) by simp
  define missing where "missing \<longleftrightarrow> (\<exists>v. 0 \<le> v \<and> v < n \<and> v \<noteq> root \<and> ie ! nat v = - 1)"
  have miss: "missing_inEdge [0..n - 1] root ie = Ok missing"
    unfolding missing_def by (rule missing_inEdge_range[OF lenie])
  show ?thesis
  proof (cases missing)
    case True
    then have "iteration n root edges minWeight inEdge cycle visited = Some (Ok (Return NoArborescence))"
      by (simp add: iteration_def s miss)
    moreover from True have m: "\<exists>v. 0 \<le> v \<and> v < n \<and> v \<noteq> root \<and> ie ! nat v = - 1"
      by (simp add: missing_def)
    ultimately show ?thesis
      by (intro exI[of _ ie] conjI s(3) s(4), subst if_P[OF m])
  next
    case False
    then have nm: "\<not> (\<exists>v. 0 \<le> v \<and> v < n \<and> v \<noteq> root \<and> ie ! nat v = - 1)"
      by (simp add: missing_def)
    then have as: "all_selected n root edges ie"
      unfolding all_selected_def using v lenie s(4) by blast
    define f where "f = parent root edges ie"
    have cs: "chain_step n root edges ie f" unfolding f_def by (rule all_selected_chain_step[OF as])
    from detect_cycles_spec[OF cs len(2,3)] obtain cy vi cc where dc:
      "detect_cycles n root edges ie cycle visited = Some (Ok (cy, vi, cc))"
      "length cy = length cycle" "length vi = length visited" "0 \<le> cc"
      "\<forall>v. 0 \<le> v \<and> v < n \<longrightarrow> (cy ! nat v \<noteq> - 1) = on_cycle f root v"
      "(cc = 0) = (\<forall>v. 0 \<le> v \<and> v < n \<longrightarrow> \<not> on_cycle f root v)"
      "\<forall>u v. 0 \<le> u \<and> u < n \<and> 0 \<le> v \<and> v < n \<and> cy ! nat u \<noteq> - 1 \<and> cy ! nat v \<noteq> - 1 \<longrightarrow>
              (cy ! nat u = cy ! nat v) = same_class f root u v"
      by blast
    note acc = accumulate_spec[OF as, of minWeight]
    show ?thesis
    proof (cases "cc = 0")
      case True
      then have it: "iteration n root edges minWeight inEdge cycle visited =
                Some (Ok (Return (TotalWeight (accumulated n root edges ie minWeight))))"
        using False by (simp add: iteration_def s miss dc(1) acc)
      from True dc(6) have nc: "\<forall>v. 0 \<le> v \<and> v < n \<longrightarrow> \<not> on_cycle (parent root edges ie) root v"
        by (simp add: f_def)
      show ?thesis
        by (intro exI[of _ ie] conjI s(3) s(4), subst if_not_P[OF nm], intro conjI as,
            subst if_P[OF nc], rule it)
    next
      case nz: False
      have lency: "n \<le> int (length cy)" using dc(2) len(2) by simp
      from assign_ids_spec[OF cs lency dc(5)] obtain ids num where ai:
        "assign_ids n edges ie cy = Some (Ok (ids, num))" "ids_result n root f ids num" by blast
      note ird = ids_resultD[OF ai(2)]
      from contract_edges_spec[OF v s(4) lenie ird(1)]
      have ce: "contract_edges edges ie ids = Ok (contracted edges ie ids)" .
      have atr: "vec_at ids root = Ok (ids ! nat root)" using vd ird(1) by (simp add: vec_at_def)
      have it: "iteration n root edges minWeight inEdge cycle visited =
                  Some (Ok (Continue num (ids ! nat root - 1) (contracted edges ie ids)
                              (accumulated n root edges ie minWeight) ie cy vi))"
        using False nz by (simp add: iteration_def s miss dc(1) acc ai(1) ce atr)
      from nz dc(6) have ex: "\<not> (\<forall>v. 0 \<le> v \<and> v < n \<longrightarrow> \<not> on_cycle (parent root edges ie) root v)"
        by (simp add: f_def)
      have fin: "\<exists>ids num cy vi.
                ids_result n root (parent root edges ie) ids num \<and>
                length cy = length cycle \<and> length vi = length visited \<and>
                (\<forall>v. 0 \<le> v \<and> v < n \<longrightarrow> (cy ! nat v \<noteq> - 1) = on_cycle (parent root edges ie) root v) \<and>
                (\<forall>u v. 0 \<le> u \<and> u < n \<and> 0 \<le> v \<and> v < n \<and> cy ! nat u \<noteq> - 1 \<and> cy ! nat v \<noteq> - 1 \<longrightarrow>
                   (cy ! nat u = cy ! nat v) = same_class (parent root edges ie) root u v) \<and>
                iteration n root edges minWeight inEdge cycle visited =
                  Some (Ok (Continue num (ids ! nat root - 1) (contracted edges ie ids)
                              (accumulated n root edges ie minWeight) ie cy vi))"
        by (intro exI[of _ ids] exI[of _ num] exI[of _ cy] exI[of _ vi] conjI
            ai(2)[unfolded f_def] dc(2) dc(3) dc(5)[unfolded f_def] dc(7)[unfolded f_def] it)
      show ?thesis
        by (intro exI[of _ ie] conjI s(3) s(4), subst if_not_P[OF nm], intro conjI as,
            subst if_not_P[OF ex], rule fin)
    qed
  qed
qed

section \<open>The loop and the call\<close>

lemma cycle_shrinks:
  assumes as: "all_selected n root edges ie"
    and ex: "\<not> (\<forall>v. 0 \<le> v \<and> v < n \<longrightarrow> \<not> on_cycle (parent root edges ie) root v)"
    and ir: "ids_result n root (parent root edges ie) ids num"
  shows "1 \<le> num" "num < n"
proof -
  let ?f = "parent root edges ie"
  note cs = all_selected_chain_step[OF as]
  note vd = valid_inputD[OF all_selectedD(1)[OF as]]
  from ex obtain v where v: "0 \<le> v" "v < n" "on_cycle ?f root v" by blast
  have r: "0 \<le> ?f v \<and> ?f v < n" using chain_step_range[OF cs v(1,2), of 1] by simp
  have ne: "v \<noteq> ?f v" using on_cycle_not_fixed[OF cs v(3) v(1,2)] by simp
  have "(?f ^^ 1) v = ?f v" by simp
  then have "\<exists>k. (?f ^^ k) v = ?f v" by (rule exI)
  with v(3) have sc: "same_class ?f root v (?f v)" by (simp add: same_class_def)
  show "1 \<le> num" by (rule ids_result_count(1)[OF ir vd(1)])
  show "num < n" using ids_result_count(3)[OF ir vd(1) v(1,2) _ _ ne sc] r by simp
qed

lemma solve_loop_rule:
  assumes v: "valid_input n root edges"
    and len: "n \<le> int (length inEdge)" "n \<le> int (length cycle)" "n \<le> int (length visited)"
    and none: "\<And>n root edges mw ie. valid_input n root edges \<Longrightarrow> selection n edges ie \<Longrightarrow>
        \<exists>v. 0 \<le> v \<and> v < n \<and> v \<noteq> root \<and> ie ! nat v = - 1 \<Longrightarrow>
        P n root edges mw (NoArborescence, edges)"
    and total: "\<And>n root edges mw ie. all_selected n root edges ie \<Longrightarrow>
        \<forall>v. 0 \<le> v \<and> v < n \<longrightarrow> \<not> on_cycle (parent root edges ie) root v \<Longrightarrow>
        P n root edges mw (TotalWeight (accumulated n root edges ie mw), edges)"
    and step: "\<And>n root edges mw ie ids num res. all_selected n root edges ie \<Longrightarrow>
        \<not> (\<forall>v. 0 \<le> v \<and> v < n \<longrightarrow> \<not> on_cycle (parent root edges ie) root v) \<Longrightarrow>
        ids_result n root (parent root edges ie) ids num \<Longrightarrow>
        P num (ids ! nat root - 1) (contracted edges ie ids) (accumulated n root edges ie mw) res \<Longrightarrow>
        P n root edges mw res"
  shows "\<exists>res. solve_loop n root edges mw inEdge cycle visited = Some (Ok res) \<and>
           (\<forall>k. nat n \<le> k \<longrightarrow> solve_bounded k n root edges mw inEdge cycle visited = Some (Ok res)) \<and>
           P n root edges mw res"
  using v len
proof (induction "nat n" arbitrary: n root edges mw inEdge cycle visited rule: less_induct)
  case less
  note vd = valid_inputD[OF less.prems(1)]
  from iteration_spec[OF less.prems, of mw] obtain ie where ie:
    "length ie = length inEdge" "selection n edges ie"
    "if \<exists>v. 0 \<le> v \<and> v < n \<and> v \<noteq> root \<and> ie ! nat v = - 1
      then iteration n root edges mw inEdge cycle visited = Some (Ok (Return NoArborescence))
      else all_selected n root edges ie \<and>
        (if \<forall>v. 0 \<le> v \<and> v < n \<longrightarrow> \<not> on_cycle (parent root edges ie) root v
         then iteration n root edges mw inEdge cycle visited =
                Some (Ok (Return (TotalWeight (accumulated n root edges ie mw))))
         else \<exists>ids num cy vi.
                ids_result n root (parent root edges ie) ids num \<and>
                length cy = length cycle \<and> length vi = length visited \<and>
                (\<forall>v. 0 \<le> v \<and> v < n \<longrightarrow> (cy ! nat v \<noteq> - 1) = on_cycle (parent root edges ie) root v) \<and>
                (\<forall>u v. 0 \<le> u \<and> u < n \<and> 0 \<le> v \<and> v < n \<and> cy ! nat u \<noteq> - 1 \<and> cy ! nat v \<noteq> - 1 \<longrightarrow>
                   (cy ! nat u = cy ! nat v) = same_class (parent root edges ie) root u v) \<and>
                iteration n root edges mw inEdge cycle visited =
                  Some (Ok (Continue num (ids ! nat root - 1) (contracted edges ie ids)
                              (accumulated n root edges ie mw) ie cy vi)))"
    by blast
  have npos: "\<And>k. nat n \<le> k \<Longrightarrow> \<exists>k'. k = Suc k'"
    using vd(1) by (metis Suc_le_D nat_1 nat_mono One_nat_def)
  show ?case
  proof (cases "\<exists>v. 0 \<le> v \<and> v < n \<and> v \<noteq> root \<and> ie ! nat v = - 1")
    case True
    with ie(3) have it: "iteration n root edges mw inEdge cycle visited = Some (Ok (Return NoArborescence))"
      by simp
    have 1: "solve_loop n root edges mw inEdge cycle visited = Some (Ok (NoArborescence, edges))"
      by (subst solve_loop.simps) (simp add: it)
    have 2: "\<forall>k. nat n \<le> k \<longrightarrow> solve_bounded k n root edges mw inEdge cycle visited = Some (Ok (NoArborescence, edges))"
    proof (intro allI impI)
      fix k assume "nat n \<le> k"
      from npos[OF this] obtain k' where "k = Suc k'" by blast
      then show "solve_bounded k n root edges mw inEdge cycle visited = Some (Ok (NoArborescence, edges))"
        by (simp add: it)
    qed
    from none[OF less.prems(1) ie(2) True] 1 2 show ?thesis by blast
  next
    case False
    with ie(3) have as: "all_selected n root edges ie" by simp
    show ?thesis
    proof (cases "\<forall>v. 0 \<le> v \<and> v < n \<longrightarrow> \<not> on_cycle (parent root edges ie) root v")
      case True
      with ie(3) False have it: "iteration n root edges mw inEdge cycle visited =
                Some (Ok (Return (TotalWeight (accumulated n root edges ie mw))))"
        by simp
      have 1: "solve_loop n root edges mw inEdge cycle visited =
                 Some (Ok (TotalWeight (accumulated n root edges ie mw), edges))"
        by (subst solve_loop.simps) (simp add: it)
      have 2: "\<forall>k. nat n \<le> k \<longrightarrow> solve_bounded k n root edges mw inEdge cycle visited =
                 Some (Ok (TotalWeight (accumulated n root edges ie mw), edges))"
      proof (intro allI impI)
        fix k assume "nat n \<le> k"
        from npos[OF this] obtain k' where "k = Suc k'" by blast
        then show "solve_bounded k n root edges mw inEdge cycle visited =
                 Some (Ok (TotalWeight (accumulated n root edges ie mw), edges))"
          by (simp add: it)
      qed
      from total[OF as True] 1 2 show ?thesis by blast
    next
      case ex: False
      from ie(3) False ex obtain ids num cy vi where c:
        "ids_result n root (parent root edges ie) ids num"
        "length cy = length cycle" "length vi = length visited"
        "iteration n root edges mw inEdge cycle visited =
                  Some (Ok (Continue num (ids ! nat root - 1) (contracted edges ie ids)
                              (accumulated n root edges ie mw) ie cy vi))"
        by auto
      note sh = cycle_shrinks[OF as ex c(1)]
      have v': "valid_input num (ids ! nat root - 1) (contracted edges ie ids)"
        by (rule contracted_valid[OF all_selected_chain_step[OF as] less.prems(1) c(1)])
      have dec: "nat num < nat n" using sh by simp
      have len': "num \<le> int (length ie)" "num \<le> int (length cy)" "num \<le> int (length vi)"
        using sh(2) less.prems(2,3,4) ie(1) c(2,3) by simp_all
      from less.hyps[OF dec v' len', of "accumulated n root edges ie mw"]
      obtain res where r:
        "solve_loop num (ids ! nat root - 1) (contracted edges ie ids)
           (accumulated n root edges ie mw) ie cy vi = Some (Ok res)"
        "\<forall>k. nat num \<le> k \<longrightarrow> solve_bounded k num (ids ! nat root - 1) (contracted edges ie ids)
           (accumulated n root edges ie mw) ie cy vi = Some (Ok res)"
        "P num (ids ! nat root - 1) (contracted edges ie ids) (accumulated n root edges ie mw) res"
        by blast
      have 1: "solve_loop n root edges mw inEdge cycle visited = Some (Ok res)"
        by (subst solve_loop.simps) (simp add: c(4) r(1))
      have 2: "\<forall>k. nat n \<le> k \<longrightarrow> solve_bounded k n root edges mw inEdge cycle visited = Some (Ok res)"
      proof (intro allI impI)
        fix k assume k: "nat n \<le> k"
        from npos[OF this] obtain k' where k': "k = Suc k'" by blast
        with k dec have "nat num \<le> k'" by linarith
        with r(2) have "solve_bounded k' num (ids ! nat root - 1) (contracted edges ie ids)
           (accumulated n root edges ie mw) ie cy vi = Some (Ok res)" by blast
        then show "solve_bounded k n root edges mw inEdge cycle visited = Some (Ok res)"
          by (simp add: k' c(4))
      qed
      from step[OF as ex c(1) r(3)] 1 2 show ?thesis by blast
    qed
  qed
qed

lemma run_rule:
  assumes v: "valid_input n root edges"
    and none: "\<And>n root edges mw ie. valid_input n root edges \<Longrightarrow> selection n edges ie \<Longrightarrow>
        \<exists>v. 0 \<le> v \<and> v < n \<and> v \<noteq> root \<and> ie ! nat v = - 1 \<Longrightarrow>
        P n root edges mw (NoArborescence, edges)"
    and total: "\<And>n root edges mw ie. all_selected n root edges ie \<Longrightarrow>
        \<forall>v. 0 \<le> v \<and> v < n \<longrightarrow> \<not> on_cycle (parent root edges ie) root v \<Longrightarrow>
        P n root edges mw (TotalWeight (accumulated n root edges ie mw), edges)"
    and step: "\<And>n root edges mw ie ids num res. all_selected n root edges ie \<Longrightarrow>
        \<not> (\<forall>v. 0 \<le> v \<and> v < n \<longrightarrow> \<not> on_cycle (parent root edges ie) root v) \<Longrightarrow>
        ids_result n root (parent root edges ie) ids num \<Longrightarrow>
        P num (ids ! nat root - 1) (contracted edges ie ids) (accumulated n root edges ie mw) res \<Longrightarrow>
        P n root edges mw res"
  shows "\<exists>res. chuLiuEdmonds_run n root edges = Some (Ok res) \<and>
           chuLiuEdmonds_bounded (nat n) n root edges = Some (Ok res) \<and>
           P n root edges 0 res"
proof -
  note vd = valid_inputD[OF v]
  have len: "n \<le> int (length (replicate (nat n) (- 1 :: int)))"
    "n \<le> int (length (replicate (nat n) (0 :: int)))" by simp_all
  have "\<exists>res. solve_loop n root edges 0 (replicate (nat n) (- 1)) (replicate (nat n) (- 1))
       (replicate (nat n) 0) = Some (Ok res) \<and>
     (\<forall>k. nat n \<le> k \<longrightarrow> solve_bounded k n root edges 0 (replicate (nat n) (- 1))
       (replicate (nat n) (- 1)) (replicate (nat n) 0) = Some (Ok res)) \<and>
     P n root edges 0 res"
  proof (rule solve_loop_rule[where P = P and mw = 0, OF v len(1) len(1) len(2)], goal_cases)
    case (1 n root edges mw ie)
    then show ?case by (rule none)
  next
    case (2 n root edges mw ie)
    then show ?case by (rule total)
  next
    case (3 n root edges mw ie ids num res)
    then show ?case by (rule step)
  qed
  then obtain res where r: "solve_loop n root edges 0 (replicate (nat n) (- 1)) (replicate (nat n) (- 1))
       (replicate (nat n) 0) = Some (Ok res)"
    "\<forall>k. nat n \<le> k \<longrightarrow> solve_bounded k n root edges 0 (replicate (nat n) (- 1))
       (replicate (nat n) (- 1)) (replicate (nat n) 0) = Some (Ok res)"
    "P n root edges 0 res" by blast
  from r(2) have "solve_bounded (nat n) n root edges 0 (replicate (nat n) (- 1))
       (replicate (nat n) (- 1)) (replicate (nat n) 0) = Some (Ok res)" by simp
  with r(1,3) vd(1) show ?thesis by (simp add: chuLiuEdmonds_run_def chuLiuEdmonds_bounded_def)
qed

lemma run_returns:
  assumes v: "valid_input n root edges"
  shows "\<exists>res. chuLiuEdmonds_run n root edges = Some (Ok res) \<and>
           chuLiuEdmonds_bounded (nat n) n root edges = Some (Ok res)"
  using run_rule[where P = "\<lambda>_ _ _ _ _. True", OF v] by simp

lemma chuLiuEdmonds_of_run:
  "chuLiuEdmonds_run n root edges = Some (Ok (r, es)) \<Longrightarrow>
   chuLiuEdmonds n root edges = Some (Ok (returned_int r, es))"
  by (simp add: chuLiuEdmonds_def)

text \<open>What a pass through the body that ends in a contraction has computed.\<close>

lemma iteration_continue:
  assumes v: "valid_input n root edges"
    and len: "n \<le> int (length inEdge)" "n \<le> int (length cycle)" "n \<le> int (length visited)"
    and it: "iteration n root edges mw inEdge cycle visited =
               Some (Ok (Continue n' root' edges' mw' ie cy vi))"
  shows "\<exists>ids. all_selected n root edges ie \<and>
           \<not> (\<forall>v. 0 \<le> v \<and> v < n \<longrightarrow> \<not> on_cycle (parent root edges ie) root v) \<and>
           ids_result n root (parent root edges ie) ids n' \<and>
           root' = ids ! nat root - 1 \<and> edges' = contracted edges ie ids \<and>
           mw' = accumulated n root edges ie mw \<and>
           length ie = length inEdge \<and> length cy = length cycle \<and> length vi = length visited \<and>
           (\<forall>v. 0 \<le> v \<and> v < n \<longrightarrow> (cy ! nat v \<noteq> - 1) = on_cycle (parent root edges ie) root v) \<and>
           (\<forall>u v. 0 \<le> u \<and> u < n \<and> 0 \<le> v \<and> v < n \<and> cy ! nat u \<noteq> - 1 \<and> cy ! nat v \<noteq> - 1 \<longrightarrow>
              (cy ! nat u = cy ! nat v) = same_class (parent root edges ie) root u v)"
proof -
  from iteration_spec[OF v len, of mw] obtain ie0 where ie:
    "length ie0 = length inEdge" "selection n edges ie0"
    "if \<exists>v. 0 \<le> v \<and> v < n \<and> v \<noteq> root \<and> ie0 ! nat v = - 1
      then iteration n root edges mw inEdge cycle visited = Some (Ok (Return NoArborescence))
      else all_selected n root edges ie0 \<and>
        (if \<forall>v. 0 \<le> v \<and> v < n \<longrightarrow> \<not> on_cycle (parent root edges ie0) root v
         then iteration n root edges mw inEdge cycle visited =
                Some (Ok (Return (TotalWeight (accumulated n root edges ie0 mw))))
         else \<exists>ids num cy vi.
                ids_result n root (parent root edges ie0) ids num \<and>
                length cy = length cycle \<and> length vi = length visited \<and>
                (\<forall>v. 0 \<le> v \<and> v < n \<longrightarrow> (cy ! nat v \<noteq> - 1) = on_cycle (parent root edges ie0) root v) \<and>
                (\<forall>u v. 0 \<le> u \<and> u < n \<and> 0 \<le> v \<and> v < n \<and> cy ! nat u \<noteq> - 1 \<and> cy ! nat v \<noteq> - 1 \<longrightarrow>
                   (cy ! nat u = cy ! nat v) = same_class (parent root edges ie0) root u v) \<and>
                iteration n root edges mw inEdge cycle visited =
                  Some (Ok (Continue num (ids ! nat root - 1) (contracted edges ie0 ids)
                              (accumulated n root edges ie0 mw) ie0 cy vi)))"
    by blast
  have nm: "\<not> (\<exists>v. 0 \<le> v \<and> v < n \<and> v \<noteq> root \<and> ie0 ! nat v = - 1)"
  proof
    assume "\<exists>v. 0 \<le> v \<and> v < n \<and> v \<noteq> root \<and> ie0 ! nat v = - 1"
    with ie(3) it show False by simp
  qed
  with ie(3) have as: "all_selected n root edges ie0" by simp
  have ex: "\<not> (\<forall>v. 0 \<le> v \<and> v < n \<longrightarrow> \<not> on_cycle (parent root edges ie0) root v)"
  proof
    assume "\<forall>v. 0 \<le> v \<and> v < n \<longrightarrow> \<not> on_cycle (parent root edges ie0) root v"
    with ie(3) nm it show False by simp
  qed
  from ie(3) nm ex obtain ids num cy0 vi0 where c:
    "ids_result n root (parent root edges ie0) ids num"
    "length cy0 = length cycle" "length vi0 = length visited"
    "\<forall>v. 0 \<le> v \<and> v < n \<longrightarrow> (cy0 ! nat v \<noteq> - 1) = on_cycle (parent root edges ie0) root v"
    "\<forall>u v. 0 \<le> u \<and> u < n \<and> 0 \<le> v \<and> v < n \<and> cy0 ! nat u \<noteq> - 1 \<and> cy0 ! nat v \<noteq> - 1 \<longrightarrow>
       (cy0 ! nat u = cy0 ! nat v) = same_class (parent root edges ie0) root u v"
    "iteration n root edges mw inEdge cycle visited =
       Some (Ok (Continue num (ids ! nat root - 1) (contracted edges ie0 ids)
                              (accumulated n root edges ie0 mw) ie0 cy0 vi0))"
    by auto
  from c(6) it have eq: "n' = num" "root' = ids ! nat root - 1" "edges' = contracted edges ie0 ids"
    "mw' = accumulated n root edges ie0 mw" "ie = ie0" "cy = cy0" "vi = vi0"
    by simp_all
  show ?thesis
    unfolding eq
    by (intro exI[of _ ids] conjI as ex c(1) refl ie(1) c(2) c(3) c(4) c(5))
qed

lemma contracted_length:
  "length (contracted edges ie ids) \<le> length edges"
  by (simp add: contracted_def)

lemma contracted_shorter:
  assumes as: "all_selected n root edges ie"
    and ex: "\<not> (\<forall>v. 0 \<le> v \<and> v < n \<longrightarrow> \<not> on_cycle (parent root edges ie) root v)"
    and ir: "ids_result n root (parent root edges ie) ids num"
  shows "length (contracted edges ie ids) < length edges"
proof -
  let ?f = "parent root edges ie"
  note cs = all_selected_chain_step[OF as]
  from ex obtain v where v: "0 \<le> v" "v < n" "on_cycle ?f root v" by blast
  then have nr: "v \<noteq> root" by (simp add: on_cycle_def)
  note m = min_in_edgeD[OF all_selectedD(4)[OF as v(1,2) nr]]
  let ?e = "selected edges ie v"
  have e: "?e \<in> set edges" "eto ?e = v" "efrom ?e = ?f v"
    using m(3,4) nr by (simp_all add: selected_def parent_def)
  have r: "0 \<le> ?f v \<and> ?f v < n" using chain_step_range[OF cs v(1,2), of 1] by simp
  have "(?f ^^ 1) v = ?f v" by simp
  then have "\<exists>k. (?f ^^ k) v = ?f v" by (rule exI)
  with v(3) have sc: "same_class ?f root v (?f v)" by (simp add: same_class_def)
  have "ids ! nat v = ids ! nat (?f v)"
    using ids_resultD(3)[OF ir v(1,2), of "?f v"] r sc by simp
  then have "\<not> crossing ids ?e" using e by (simp add: crossing_def)
  with e(1) have "length (filter (crossing ids) edges) < length edges"
    by (meson length_filter_less)
  then show ?thesis by (simp add: contracted_def)
qed

lemma run_edges_length:
  assumes v: "valid_input n root edges"
  shows "\<exists>r es. chuLiuEdmonds_run n root edges = Some (Ok (r, es)) \<and> length es \<le> length edges"
proof -
  have "\<exists>res. chuLiuEdmonds_run n root edges = Some (Ok res) \<and>
           chuLiuEdmonds_bounded (nat n) n root edges = Some (Ok res) \<and>
           length (snd res) \<le> length edges"
  proof (rule run_rule[where P = "\<lambda>n root edges mw res. length (snd res) \<le> length edges", OF v],
      goal_cases)
    case 1
    then show ?case by simp
  next
    case 2
    then show ?case by simp
  next
    case (3 n root edges mw ie ids num res)
    with contracted_length[of edges ie ids] show ?case by simp
  qed
  then show ?thesis by auto
qed

lemma run_unfold:
  assumes "0 \<le> n"
  shows "chuLiuEdmonds_run n root edges =
     (case first_pass n root edges of
        None \<Rightarrow> None
      | Some (Failure e) \<Rightarrow> Some (Failure e)
      | Some (Ok (Return r)) \<Rightarrow> Some (Ok (r, edges))
      | Some (Ok (Continue n' root' edges' minWeight' inEdge' cycle' visited')) \<Rightarrow>
          solve_loop n' root' edges' minWeight' inEdge' cycle' visited')"
  using assms unfolding chuLiuEdmonds_run_def first_pass_def
  by (subst solve_loop.simps) simp

lemma iteration_cases:
  assumes v: "valid_input n root edges"
    and len: "n \<le> int (length inEdge)" "n \<le> int (length cycle)" "n \<le> int (length visited)"
  shows "(\<exists>r. iteration n root edges mw inEdge cycle visited = Some (Ok (Return r))) \<or>
         (\<exists>n' root' edges' mw' ie cy vi. iteration n root edges mw inEdge cycle visited =
               Some (Ok (Continue n' root' edges' mw' ie cy vi)))"
proof -
  from iteration_spec[OF v len, of mw] obtain ie where ie:
    "if \<exists>v. 0 \<le> v \<and> v < n \<and> v \<noteq> root \<and> ie ! nat v = - 1
      then iteration n root edges mw inEdge cycle visited = Some (Ok (Return NoArborescence))
      else all_selected n root edges ie \<and>
        (if \<forall>v. 0 \<le> v \<and> v < n \<longrightarrow> \<not> on_cycle (parent root edges ie) root v
         then iteration n root edges mw inEdge cycle visited =
                Some (Ok (Return (TotalWeight (accumulated n root edges ie mw))))
         else \<exists>ids num cy vi.
                ids_result n root (parent root edges ie) ids num \<and>
                length cy = length cycle \<and> length vi = length visited \<and>
                (\<forall>v. 0 \<le> v \<and> v < n \<longrightarrow> (cy ! nat v \<noteq> - 1) = on_cycle (parent root edges ie) root v) \<and>
                (\<forall>u v. 0 \<le> u \<and> u < n \<and> 0 \<le> v \<and> v < n \<and> cy ! nat u \<noteq> - 1 \<and> cy ! nat v \<noteq> - 1 \<longrightarrow>
                   (cy ! nat u = cy ! nat v) = same_class (parent root edges ie) root u v) \<and>
                iteration n root edges mw inEdge cycle visited =
                  Some (Ok (Continue num (ids ! nat root - 1) (contracted edges ie ids)
                              (accumulated n root edges ie mw) ie cy vi)))"
    by blast
  show ?thesis
  proof (cases "\<exists>v. 0 \<le> v \<and> v < n \<and> v \<noteq> root \<and> ie ! nat v = - 1")
    case True
    with ie show ?thesis by simp
  next
    case False
    show ?thesis
    proof (cases "\<forall>v. 0 \<le> v \<and> v < n \<longrightarrow> \<not> on_cycle (parent root edges ie) root v")
      case True
      with ie False show ?thesis by simp
    next
      case ex: False
      with ie False obtain ids num cy vi where
        "iteration n root edges mw inEdge cycle visited =
                  Some (Ok (Continue num (ids ! nat root - 1) (contracted edges ie ids)
                              (accumulated n root edges ie mw) ie cy vi))"
        by auto
      then show ?thesis by blast
    qed
  qed
qed

lemma continue_shrinks:
  assumes v: "valid_input n root edges"
    and len: "n \<le> int (length inEdge)" "n \<le> int (length cycle)" "n \<le> int (length visited)"
    and it: "iteration n root edges mw inEdge cycle visited =
               Some (Ok (Continue n' root' edges' mw' ie cy vi))"
  shows "1 \<le> n'" "n' < n" "valid_input n' root' edges'" "length edges' < length edges"
    "n' \<le> int (length ie)" "n' \<le> int (length cy)" "n' \<le> int (length vi)"
proof -
  from iteration_continue[OF v len it] obtain ids where c:
    "all_selected n root edges ie"
    "\<not> (\<forall>v. 0 \<le> v \<and> v < n \<longrightarrow> \<not> on_cycle (parent root edges ie) root v)"
    "ids_result n root (parent root edges ie) ids n'"
    "root' = ids ! nat root - 1" "edges' = contracted edges ie ids"
    "length ie = length inEdge" "length cy = length cycle" "length vi = length visited"
    by blast
  note sh = cycle_shrinks[OF c(1,2,3)]
  show "1 \<le> n'" "n' < n" by (rule sh)+
  show "valid_input n' root' edges'"
    unfolding c(4,5) by (rule contracted_valid[OF all_selected_chain_step[OF c(1)] v c(3)])
  show "length edges' < length edges" unfolding c(5) by (rule contracted_shorter[OF c(1,2,3)])
  show "n' \<le> int (length ie)" "n' \<le> int (length cy)" "n' \<le> int (length vi)"
    using sh(2) len c(6,7,8) by simp_all
qed

lemma loop_edges_length:
  assumes v: "valid_input n root edges"
    and len: "n \<le> int (length inEdge)" "n \<le> int (length cycle)" "n \<le> int (length visited)"
  shows "\<exists>r es. solve_loop n root edges mw inEdge cycle visited = Some (Ok (r, es)) \<and>
           length es \<le> length edges"
proof -
  have "\<exists>res. solve_loop n root edges mw inEdge cycle visited = Some (Ok res) \<and>
        (\<forall>k. nat n \<le> k \<longrightarrow> solve_bounded k n root edges mw inEdge cycle visited = Some (Ok res)) \<and>
        length (snd res) \<le> length edges"
  proof (rule solve_loop_rule[where P = "\<lambda>n root edges mw res. length (snd res) \<le> length edges",
        OF v len], goal_cases)
    case 1
    then show ?case by simp
  next
    case 2
    then show ?case by simp
  next
    case (3 n root edges mw ie ids num res)
    with contracted_length[of edges ie ids] show ?case by simp
  qed
  then show ?thesis by auto
qed

lemma run_edges:
  assumes v: "valid_input n root edges"
  shows "\<exists>r es. chuLiuEdmonds_run n root edges = Some (Ok (r, es)) \<and> length es \<le> length edges \<and>
           (es = edges) = (\<exists>r'. first_pass n root edges = Some (Ok (Return r')))"
proof -
  note vd = valid_inputD[OF v]
  have n0: "0 \<le> n" using vd(1) by simp
  have len: "n \<le> int (length (replicate (nat n) (- 1 :: int)))"
    "n \<le> int (length (replicate (nat n) (0 :: int)))" by simp_all
  from iteration_cases[OF v len(1) len(1) len(2), of 0]
  consider r where "first_pass n root edges = Some (Ok (Return r))"
    | n' root' edges' mw' ie cy vi where
      "first_pass n root edges = Some (Ok (Continue n' root' edges' mw' ie cy vi))"
    unfolding first_pass_def by blast
  then show ?thesis
  proof cases
    case 1
    then have "chuLiuEdmonds_run n root edges = Some (Ok (r, edges))"
      by (simp add: run_unfold[OF n0])
    with 1 show ?thesis by simp
  next
    case 2
    note sh = continue_shrinks[OF v len(1) len(1) len(2) 2[unfolded first_pass_def]]
    from loop_edges_length[OF sh(3) sh(5,6,7), of mw'] obtain r es where
      l: "solve_loop n' root' edges' mw' ie cy vi = Some (Ok (r, es))" "length es \<le> length edges'"
      by blast
    have "chuLiuEdmonds_run n root edges = Some (Ok (r, es))"
      by (simp add: run_unfold[OF n0] 2 l(1))
    moreover have "length es < length edges" using l(2) sh(4) by simp
    ultimately show ?thesis using 2 by auto
  qed
qed

section \<open>Arborescences and contraction\<close>
























lemma contract_exact_sel [simp]:
  "efrom (contract_exact edges ie ids e) = ids ! nat (efrom e) - 1"
  "eto (contract_exact edges ie ids e) = ids ! nat (eto e) - 1"
  "eweight (contract_exact edges ie ids e) = eweight e - eweight (selected edges ie (eto e))"
  by (simp_all add: contract_exact_def)








section \<open>Correctness of the outcome\<close>








lemma loop_last_snapshot:
  assumes v: "valid_input n root edges"
    and len: "n \<le> int (length inEdge)" "n \<le> int (length cycle)" "n \<le> int (length visited)"
  shows "\<exists>r es k n' root' mw' ie cy vi.
           solve_loop n root edges mw inEdge cycle visited = Some (Ok (r, es)) \<and> k < nat n \<and>
           snapshot_after k n root edges mw inEdge cycle visited = Some (n', root', es, mw', ie, cy, vi) \<and>
           iteration n' root' es mw' ie cy vi = Some (Ok (Return r))"
  using v len
proof (induction "nat n" arbitrary: n root edges mw inEdge cycle visited rule: less_induct)
  case less
  note vd = valid_inputD[OF less.prems(1)]
  from iteration_cases[OF less.prems, of mw]
  consider r where "iteration n root edges mw inEdge cycle visited = Some (Ok (Return r))"
    | n1 root1 edges1 mw1 ie1 cy1 vi1 where
      "iteration n root edges mw inEdge cycle visited =
         Some (Ok (Continue n1 root1 edges1 mw1 ie1 cy1 vi1))"
    by blast
  then show ?case
  proof cases
    case 1
    have a: "solve_loop n root edges mw inEdge cycle visited = Some (Ok (r, edges))"
      by (subst solve_loop.simps) (simp add: 1)
    have b: "snapshot_after 0 n root edges mw inEdge cycle visited =
        Some (n, root, edges, mw, inEdge, cycle, visited)" by simp
    have c: "0 < nat n" using vd(1) by simp
    from a b c 1 show ?thesis by blast
  next
    case 2
    note sh = continue_shrinks[OF less.prems 2]
    have dec: "nat n1 < nat n" using sh(1,2) by simp
    from less.hyps[OF dec sh(3) sh(5,6,7), of mw1] obtain r es k n' root' mw' ie cy vi where ih:
      "solve_loop n1 root1 edges1 mw1 ie1 cy1 vi1 = Some (Ok (r, es))" "k < nat n1"
      "snapshot_after k n1 root1 edges1 mw1 ie1 cy1 vi1 = Some (n', root', es, mw', ie, cy, vi)"
      "iteration n' root' es mw' ie cy vi = Some (Ok (Return r))" by blast
    have a: "solve_loop n root edges mw inEdge cycle visited = Some (Ok (r, es))"
      by (subst solve_loop.simps) (simp add: 2 ih(1))
    have b: "snapshot_after (Suc k) n root edges mw inEdge cycle visited =
        Some (n', root', es, mw', ie, cy, vi)" by (simp add: 2 ih(3))
    have c: "Suc k < nat n" using ih(2) dec by linarith
    from a b c ih(4) show ?thesis by blast
  qed
qed

lemma run_last_snapshot:
  assumes v: "valid_input n root edges"
  shows "\<exists>r es. chuLiuEdmonds_run n root edges = Some (Ok (r, es)) \<and> length es \<le> length edges \<and>
           (es = edges) = (\<exists>r'. first_pass n root edges = Some (Ok (Return r'))) \<and>
           (\<exists>k n' root' mw ie cy vi. k < nat n \<and>
              snapshot_after k n root edges 0
                (replicate (nat n) (- 1)) (replicate (nat n) (- 1)) (replicate (nat n) 0) =
                Some (n', root', es, mw, ie, cy, vi) \<and>
              iteration n' root' es mw ie cy vi = Some (Ok (Return r)))"
proof -
  note vd = valid_inputD[OF v]
  have len: "n \<le> int (length (replicate (nat n) (- 1 :: int)))"
    "n \<le> int (length (replicate (nat n) (0 :: int)))" by simp_all
  from run_edges[OF v] obtain r es where e:
    "chuLiuEdmonds_run n root edges = Some (Ok (r, es))" "length es \<le> length edges"
    "(es = edges) = (\<exists>r'. first_pass n root edges = Some (Ok (Return r')))" by blast
  from loop_last_snapshot[OF v len(1) len(1) len(2), of 0] obtain r1 es1 k n' root' mw ie cy vi where l:
    "solve_loop n root edges 0 (replicate (nat n) (- 1)) (replicate (nat n) (- 1))
       (replicate (nat n) 0) = Some (Ok (r1, es1))" "k < nat n"
    "snapshot_after k n root edges 0
       (replicate (nat n) (- 1)) (replicate (nat n) (- 1)) (replicate (nat n) 0) =
       Some (n', root', es1, mw, ie, cy, vi)"
    "iteration n' root' es1 mw ie cy vi = Some (Ok (Return r1))" by blast
  from l(1) e(1) vd(1) have "r1 = r" "es1 = es" by (simp_all add: chuLiuEdmonds_run_def)
  with l(2,3,4) have "\<exists>k n' root' mw ie cy vi. k < nat n \<and>
              snapshot_after k n root edges 0
                (replicate (nat n) (- 1)) (replicate (nat n) (- 1)) (replicate (nat n) 0) =
                Some (n', root', es, mw, ie, cy, vi) \<and>
              iteration n' root' es mw ie cy vi = Some (Ok (Return r))" by blast
  with e show ?thesis by blast
qed
























text \<open>Where the subtractions of a contraction do not overflow, the contraction is exact.\<close>

lemma contracted_exact_if:
  assumes "\<forall>e \<in> set edges. crossing ids e \<longrightarrow>
      - 2147483648 \<le> eweight e - eweight (selected edges ie (eto e)) \<and>
      eweight e - eweight (selected edges ie (eto e)) < 2147483648"
  shows "contracted edges ie ids = contracted_exact edges ie ids"
  unfolding contracted_def contracted_exact_def
proof (rule map_cong[OF refl])
  fix e assume "e \<in> set (filter (crossing ids) edges)"
  then have "e \<in> set edges" "crossing ids e" by simp_all
  with assms have "- 2147483648 \<le> eweight e - eweight (selected edges ie (eto e))"
    "eweight e - eweight (selected edges ie (eto e)) < 2147483648" by blast+
  then have "wrap32 (eweight e - eweight (selected edges ie (eto e))) =
      eweight e - eweight (selected edges ie (eto e))" by (rule wrap32_id)
  then show "contract_one edges ie ids e = contract_exact edges ie ids e"
    by (simp add: contract_one_def contract_exact_def)
qed

section \<open>The claims\<close>





text \<open>
  C3, as stated: after the call the caller's edge list is unchanged. The parameter is a
  reference and line 125 assigns the contracted list to it; on the graph of test case 2
  the caller's three edges are replaced by one.
\<close>

theorem caller_edges_overwritten:
  "valid_input 3 0 [Edge 0 1 10, Edge 1 2 20, Edge 2 1 5] \<and>
   chuLiuEdmonds 3 0 [Edge 0 1 10, Edge 1 2 20, Edge 2 1 5] = Some (Ok (30, [Edge 0 1 5])) \<and>
   [Edge 0 1 5] \<noteq> [Edge 0 1 10, Edge 1 2 20, Edge 2 1 5]"
proof -
  have "valid_input 3 0 [Edge 0 1 10, Edge 1 2 20, Edge 2 1 5]" by (simp add: valid_input_def)
  moreover have "chuLiuEdmonds 3 0 [Edge 0 1 10, Edge 1 2 20, Edge 2 1 5] = Some (Ok (30, [Edge 0 1 5]))"
    by code_simp
  ultimately show ?thesis by simp
qed

text \<open>
  C3, amended: for every input that satisfies the preconditions the call returns, and the
  caller's vector then holds the edge list of the snapshot on which the loop returns, after
  fewer than \<open>n\<close> contractions. It is the caller's own list exactly when the first pass
  through the loop returns (no contraction occurs); otherwise it is the edge list that the
  last contraction has built, and it is never longer than the original.
\<close>

theorem caller_edges_hold_last_snapshot:
  assumes "valid_input n root edges"
  shows "\<exists>r es. chuLiuEdmonds n root edges = Some (Ok (r, es)) \<and> length es \<le> length edges \<and>
           (es = edges) = (\<exists>r'. first_pass n root edges = Some (Ok (Return r'))) \<and>
           (\<exists>k n' root' mw ie cy vi r'. k < nat n \<and>
              snapshot_after k n root edges 0
                (replicate (nat n) (- 1)) (replicate (nat n) (- 1)) (replicate (nat n) 0) =
                Some (n', root', es, mw, ie, cy, vi) \<and>
              iteration n' root' es mw ie cy vi = Some (Ok (Return r')) \<and>
              r = returned_int r')"
proof -
  from run_last_snapshot[OF assms] obtain r es k n' root' mw ie cy vi where a:
    "chuLiuEdmonds_run n root edges = Some (Ok (r, es))" "length es \<le> length edges"
    "(es = edges) = (\<exists>r'. first_pass n root edges = Some (Ok (Return r')))"
    "k < nat n"
    "snapshot_after k n root edges 0
       (replicate (nat n) (- 1)) (replicate (nat n) (- 1)) (replicate (nat n) 0) =
       Some (n', root', es, mw, ie, cy, vi)"
    "iteration n' root' es mw ie cy vi = Some (Ok (Return r))" by blast
  from a(4,5,6) have "\<exists>k n' root' mw ie cy vi r'. k < nat n \<and>
              snapshot_after k n root edges 0
                (replicate (nat n) (- 1)) (replicate (nat n) (- 1)) (replicate (nat n) 0) =
                Some (n', root', es, mw, ie, cy, vi) \<and>
              iteration n' root' es mw ie cy vi = Some (Ok (Return r')) \<and>
              returned_int r = returned_int r'" by blast
  with chuLiuEdmonds_of_run[OF a(1)] a(2,3) show ?thesis by blast
qed

theorem caller_edges_hold_last_snapshot_witness:
  "valid_input 3 0 [Edge 0 1 10, Edge 1 2 20, Edge 2 1 5] \<and>
   chuLiuEdmonds 3 0 [Edge 0 1 10, Edge 1 2 20, Edge 2 1 5] = Some (Ok (30, [Edge 0 1 5])) \<and>
   (\<forall>r'. first_pass 3 0 [Edge 0 1 10, Edge 1 2 20, Edge 2 1 5] \<noteq> Some (Ok (Return r'))) \<and>
   snapshot_after 1 3 0 [Edge 0 1 10, Edge 1 2 20, Edge 2 1 5] 0
     (replicate (nat 3) (- 1)) (replicate (nat 3) (- 1)) (replicate (nat 3) 0) =
     Some (2, 0, [Edge 0 1 5], 25, [- 1, 2, 1], [- 1, 0, 0], [2, 2, 2]) \<and>
   iteration 2 0 [Edge 0 1 5] 25 [- 1, 2, 1] [- 1, 0, 0] [2, 2, 2] =
     Some (Ok (Return (TotalWeight 30)))"
proof -
  let ?E = "[Edge 0 1 10, Edge 1 2 20, Edge 2 1 5]"
  have v: "valid_input 3 0 ?E" by (simp add: valid_input_def)
  have c: "chuLiuEdmonds 3 0 ?E = Some (Ok (30, [Edge 0 1 5]))" by code_simp
  have s: "snapshot_after 1 3 0 ?E 0
     (replicate (nat 3) (- 1)) (replicate (nat 3) (- 1)) (replicate (nat 3) 0) =
     Some (2, 0, [Edge 0 1 5], 25, [- 1, 2, 1], [- 1, 0, 0], [2, 2, 2])" by code_simp
  have i: "iteration 2 0 [Edge 0 1 5] 25 [- 1, 2, 1] [- 1, 0, 0] [2, 2, 2] =
     Some (Ok (Return (TotalWeight 30)))" by code_simp
  from caller_edges_hold_last_snapshot[OF v] c
  have "([Edge 0 1 5] = ?E) = (\<exists>r'. first_pass 3 0 ?E = Some (Ok (Return r')))" by simp
  then have "\<forall>r'. first_pass 3 0 ?E \<noteq> Some (Ok (Return r'))" by simp
  with v c s i show ?thesis by simp
qed




text \<open>
  C5: on every input that satisfies the preconditions the call returns, and it returns
  within \<open>n\<close> passes through the body of the loop, that is after at most \<open>n - 1\<close>
  contractions: a pass that ends in a contraction leaves a strictly smaller vertex count,
  at least 1, and a snapshot that satisfies the preconditions again.
\<close>

theorem terminates_within_n_passes:
  assumes "valid_input n root edges"
  shows "(\<exists>res. chuLiuEdmonds_run n root edges = Some (Ok res) \<and>
            chuLiuEdmonds_bounded (nat n) n root edges = Some (Ok res)) \<and>
         (\<forall>mw inEdge cycle visited n' root' edges' mw' ie cy vi.
            n \<le> int (length inEdge) \<and> n \<le> int (length cycle) \<and> n \<le> int (length visited) \<and>
            iteration n root edges mw inEdge cycle visited =
              Some (Ok (Continue n' root' edges' mw' ie cy vi)) \<longrightarrow>
            1 \<le> n' \<and> n' < n \<and> valid_input n' root' edges')"
proof (intro conjI allI impI)
  show "\<exists>res. chuLiuEdmonds_run n root edges = Some (Ok res) \<and>
            chuLiuEdmonds_bounded (nat n) n root edges = Some (Ok res)"
    by (rule run_returns[OF assms])
next
  fix mw inEdge cycle visited n' root' edges' mw' ie cy vi
  assume a: "n \<le> int (length inEdge) \<and> n \<le> int (length cycle) \<and> n \<le> int (length visited) \<and>
            iteration n root edges mw inEdge cycle visited =
              Some (Ok (Continue n' root' edges' mw' ie cy vi))"
  then have len: "n \<le> int (length inEdge)" "n \<le> int (length cycle)" "n \<le> int (length visited)"
    and it: "iteration n root edges mw inEdge cycle visited =
              Some (Ok (Continue n' root' edges' mw' ie cy vi))" by simp_all
  from continue_shrinks(1,2,3)[OF assms len it]
  show "1 \<le> n'" "n' < n" "valid_input n' root' edges'" .
qed

theorem terminates_within_n_passes_witness:
  "valid_input 3 0 [Edge 0 1 10, Edge 1 2 20, Edge 2 1 5] \<and>
   chuLiuEdmonds_run 3 0 [Edge 0 1 10, Edge 1 2 20, Edge 2 1 5] =
     Some (Ok (TotalWeight 30, [Edge 0 1 5])) \<and>
   chuLiuEdmonds_bounded 3 3 0 [Edge 0 1 10, Edge 1 2 20, Edge 2 1 5] =
     Some (Ok (TotalWeight 30, [Edge 0 1 5])) \<and>
   chuLiuEdmonds_bounded 2 3 0 [Edge 0 1 10, Edge 1 2 20, Edge 2 1 5] =
     Some (Ok (TotalWeight 30, [Edge 0 1 5])) \<and>
   chuLiuEdmonds_bounded 1 3 0 [Edge 0 1 10, Edge 1 2 20, Edge 2 1 5] = None"
proof -
  have v: "valid_input 3 0 [Edge 0 1 10, Edge 1 2 20, Edge 2 1 5]" by (simp add: valid_input_def)
  have r: "chuLiuEdmonds_run 3 0 [Edge 0 1 10, Edge 1 2 20, Edge 2 1 5] =
     Some (Ok (TotalWeight 30, [Edge 0 1 5]))" by code_simp
  have b2: "chuLiuEdmonds_bounded 2 3 0 [Edge 0 1 10, Edge 1 2 20, Edge 2 1 5] =
     Some (Ok (TotalWeight 30, [Edge 0 1 5]))" by code_simp
  have b1: "chuLiuEdmonds_bounded 1 3 0 [Edge 0 1 10, Edge 1 2 20, Edge 2 1 5] = None"
    by code_simp
  from terminates_within_n_passes[OF v] obtain res where
    "chuLiuEdmonds_run 3 0 [Edge 0 1 10, Edge 1 2 20, Edge 2 1 5] = Some (Ok res)"
    "chuLiuEdmonds_bounded (nat 3) 3 0 [Edge 0 1 10, Edge 1 2 20, Edge 2 1 5] = Some (Ok res)"
    by blast
  with r have "chuLiuEdmonds_bounded 3 3 0 [Edge 0 1 10, Edge 1 2 20, Edge 2 1 5] =
     Some (Ok (TotalWeight 30, [Edge 0 1 5]))" by simp
  with v r b2 b1 show ?thesis by simp
qed

text \<open>
  C6: a pass that ends in a contraction renumbers the vertices by a map \<open>new\<close> onto
  \<open>0, ..., n' - 1\<close>: two vertices with the same cycle id get the same new index, two
  different vertices get the same new index only if they have the same cycle id (so a vertex
  outside every cycle gets an index of its own); the next edge list holds, in order, one
  edge for each edge \<open>(u, v, w)\<close> whose endpoints get different new indices and nothing
  else: the edge \<open>(new u, new v, w')\<close> where \<open>w'\<close> is the result of the subtraction
  \<open>w - selection[v].weight\<close> in \<^verbatim>\<open>int\<close>, which is \<open>w - selection[v].weight\<close> itself
  when none of these subtractions overflows; the new root is the new index of the old
  root, which has no cycle id.
\<close>

theorem contraction_step:
  assumes "valid_input n root edges"
    and "n \<le> int (length inEdge)" "n \<le> int (length cycle)" "n \<le> int (length visited)"
    and "iteration n root edges mw inEdge cycle visited =
           Some (Ok (Continue n' root' edges' mw' ie cy vi))"
  shows "\<exists>new.
           (\<forall>v. 0 \<le> v \<and> v < n \<longrightarrow> 0 \<le> new v \<and> new v < n') \<and>
           (\<forall>k. 0 \<le> k \<and> k < n' \<longrightarrow> (\<exists>v. 0 \<le> v \<and> v < n \<and> new v = k)) \<and>
           (\<forall>u v. 0 \<le> u \<and> u < n \<and> 0 \<le> v \<and> v < n \<and> cy ! nat u \<noteq> - 1 \<and> cy ! nat u = cy ! nat v \<longrightarrow>
              new u = new v) \<and>
           (\<forall>u v. 0 \<le> u \<and> u < n \<and> 0 \<le> v \<and> v < n \<and> u \<noteq> v \<and> new u = new v \<longrightarrow>
              cy ! nat u \<noteq> - 1 \<and> cy ! nat u = cy ! nat v) \<and>
           edges' = map (\<lambda>e. Edge (new (efrom e)) (new (eto e))
                                (wrap32 (eweight e - eweight (selected edges ie (eto e)))))
                      (filter (\<lambda>e. new (efrom e) \<noteq> new (eto e)) edges) \<and>
           ((\<forall>e \<in> set edges. new (efrom e) \<noteq> new (eto e) \<longrightarrow>
               - 2147483648 \<le> eweight e - eweight (selected edges ie (eto e)) \<and>
               eweight e - eweight (selected edges ie (eto e)) < 2147483648) \<longrightarrow>
            edges' = map (\<lambda>e. Edge (new (efrom e)) (new (eto e))
                                (eweight e - eweight (selected edges ie (eto e))))
                      (filter (\<lambda>e. new (efrom e) \<noteq> new (eto e)) edges)) \<and>
           root' = new root \<and> cy ! nat root = - 1"
proof -
  let ?f = "parent root edges ie"
  from iteration_continue[OF assms] obtain ids where c:
    "all_selected n root edges ie"
    "ids_result n root ?f ids n'"
    "root' = ids ! nat root - 1" "edges' = contracted edges ie ids"
    "\<forall>v. 0 \<le> v \<and> v < n \<longrightarrow> (cy ! nat v \<noteq> - 1) = on_cycle ?f root v"
    "\<forall>u v. 0 \<le> u \<and> u < n \<and> 0 \<le> v \<and> v < n \<and> cy ! nat u \<noteq> - 1 \<and> cy ! nat v \<noteq> - 1 \<longrightarrow>
              (cy ! nat u = cy ! nat v) = same_class ?f root u v"
    by blast
  note cs = all_selected_chain_step[OF c(1)]
  note ir = ids_resultD[OF c(2)]
  note vd = valid_inputD[OF assms(1)]
  define new where "new = (\<lambda>v. ids ! nat v - 1)"
  have 1: "\<forall>v. 0 \<le> v \<and> v < n \<longrightarrow> 0 \<le> new v \<and> new v < n'"
  proof (intro allI impI)
    fix v assume "0 \<le> v \<and> v < n"
    with ir(2)[of v] show "0 \<le> new v \<and> new v < n'" by (simp add: new_def)
  qed
  have 2: "\<forall>k. 0 \<le> k \<and> k < n' \<longrightarrow> (\<exists>v. 0 \<le> v \<and> v < n \<and> new v = k)"
  proof (intro allI impI)
    fix k assume "0 \<le> k \<and> k < n'"
    with ir(4)[of "k + 1"] obtain v where "0 \<le> v \<and> v < n \<and> ids ! nat v = k + 1" by auto
    then have "0 \<le> v \<and> v < n \<and> new v = k" by (simp add: new_def)
    then show "\<exists>v. 0 \<le> v \<and> v < n \<and> new v = k" ..
  qed
  have 3: "\<forall>u v. 0 \<le> u \<and> u < n \<and> 0 \<le> v \<and> v < n \<and> cy ! nat u \<noteq> - 1 \<and> cy ! nat u = cy ! nat v \<longrightarrow>
              new u = new v"
  proof (intro allI impI)
    fix u v assume a: "0 \<le> u \<and> u < n \<and> 0 \<le> v \<and> v < n \<and> cy ! nat u \<noteq> - 1 \<and> cy ! nat u = cy ! nat v"
    then have "0 \<le> u \<and> u < n \<and> 0 \<le> v \<and> v < n \<and> cy ! nat u \<noteq> - 1 \<and> cy ! nat v \<noteq> - 1" by simp
    with c(6) have "(cy ! nat u = cy ! nat v) = same_class ?f root u v" by blast
    with a have "same_class ?f root u v" by simp
    with ir(3)[of u v] a show "new u = new v" by (simp add: new_def)
  qed
  have 4: "\<forall>u v. 0 \<le> u \<and> u < n \<and> 0 \<le> v \<and> v < n \<and> u \<noteq> v \<and> new u = new v \<longrightarrow>
              cy ! nat u \<noteq> - 1 \<and> cy ! nat u = cy ! nat v"
  proof (intro allI impI)
    fix u v assume a: "0 \<le> u \<and> u < n \<and> 0 \<le> v \<and> v < n \<and> u \<noteq> v \<and> new u = new v"
    then have "ids ! nat u = ids ! nat v" by (simp add: new_def)
    with ir(3)[of u v] a have sc: "same_class ?f root u v" by simp
    with a have ou: "on_cycle ?f root u" by (auto simp: same_class_def)
    with same_class_on_cycle[OF cs sc] have ov: "on_cycle ?f root v" by simp
    from c(5) a ou ov have m: "cy ! nat u \<noteq> - 1" "cy ! nat v \<noteq> - 1" by simp_all
    with c(6) a have "(cy ! nat u = cy ! nat v) = same_class ?f root u v" by blast
    with sc m show "cy ! nat u \<noteq> - 1 \<and> cy ! nat u = cy ! nat v" by simp
  qed
  have 5: "edges' = map (\<lambda>e. Edge (new (efrom e)) (new (eto e))
                                (wrap32 (eweight e - eweight (selected edges ie (eto e)))))
                      (filter (\<lambda>e. new (efrom e) \<noteq> new (eto e)) edges)"
    unfolding c(4) contracted_def new_def contract_one_def[abs_def] crossing_def[abs_def]
    by simp
  have 6: "(\<forall>e \<in> set edges. new (efrom e) \<noteq> new (eto e) \<longrightarrow>
               - 2147483648 \<le> eweight e - eweight (selected edges ie (eto e)) \<and>
               eweight e - eweight (selected edges ie (eto e)) < 2147483648) \<longrightarrow>
            edges' = map (\<lambda>e. Edge (new (efrom e)) (new (eto e))
                                (eweight e - eweight (selected edges ie (eto e))))
                      (filter (\<lambda>e. new (efrom e) \<noteq> new (eto e)) edges)"
  proof
    assume "\<forall>e \<in> set edges. new (efrom e) \<noteq> new (eto e) \<longrightarrow>
               - 2147483648 \<le> eweight e - eweight (selected edges ie (eto e)) \<and>
               eweight e - eweight (selected edges ie (eto e)) < 2147483648"
    then have "\<forall>e \<in> set edges. crossing ids e \<longrightarrow>
      - 2147483648 \<le> eweight e - eweight (selected edges ie (eto e)) \<and>
      eweight e - eweight (selected edges ie (eto e)) < 2147483648"
      by (simp add: new_def crossing_def)
    from contracted_exact_if[OF this] have "edges' = contracted_exact edges ie ids"
      by (simp add: c(4))
    then show "edges' = map (\<lambda>e. Edge (new (efrom e)) (new (eto e))
                                (eweight e - eweight (selected edges ie (eto e))))
                      (filter (\<lambda>e. new (efrom e) \<noteq> new (eto e)) edges)"
      unfolding contracted_exact_def new_def contract_exact_def[abs_def] crossing_def[abs_def]
      by simp
  qed
  have 7: "root' = new root" by (simp add: c(3) new_def)
  have "\<not> on_cycle ?f root root" by (simp add: on_cycle_def)
  moreover from c(5) vd(2,3) have "(cy ! nat root \<noteq> - 1) = on_cycle ?f root root" by blast
  ultimately have 8: "cy ! nat root = - 1" by simp
  show ?thesis by (intro exI[of _ new] conjI 1 2 3 4 5 6 7 8)
qed

theorem contraction_step_witness:
  "valid_input 3 0 [Edge 0 1 10, Edge 1 2 20, Edge 2 1 5] \<and>
   iteration 3 0 [Edge 0 1 10, Edge 1 2 20, Edge 2 1 5] 0 [- 1, - 1, - 1] [- 1, - 1, - 1] [0, 0, 0] =
     Some (Ok (Continue 2 0 [Edge 0 1 5] 25 [- 1, 2, 1] [- 1, 0, 0] [2, 2, 2])) \<and>
   (\<exists>new.
      (\<forall>v. 0 \<le> v \<and> v < 3 \<longrightarrow> 0 \<le> new v \<and> new v < 2) \<and>
      (\<forall>k. 0 \<le> k \<and> k < 2 \<longrightarrow> (\<exists>v. 0 \<le> v \<and> v < 3 \<and> new v = k)) \<and>
      (\<forall>u v. 0 \<le> u \<and> u < 3 \<and> 0 \<le> v \<and> v < 3 \<and> [- 1, 0, 0 :: int] ! nat u \<noteq> - 1 \<and>
           [- 1, 0, 0 :: int] ! nat u = [- 1, 0, 0 :: int] ! nat v \<longrightarrow> new u = new v) \<and>
      (\<forall>u v. 0 \<le> u \<and> u < 3 \<and> 0 \<le> v \<and> v < 3 \<and> u \<noteq> v \<and> new u = new v \<longrightarrow>
           [- 1, 0, 0 :: int] ! nat u \<noteq> - 1 \<and> [- 1, 0, 0 :: int] ! nat u = [- 1, 0, 0 :: int] ! nat v) \<and>
      [Edge 0 1 5] =
        map (\<lambda>e. Edge (new (efrom e)) (new (eto e))
               (wrap32 (eweight e - eweight (selected [Edge 0 1 10, Edge 1 2 20, Edge 2 1 5] [- 1, 2, 1] (eto e)))))
          (filter (\<lambda>e. new (efrom e) \<noteq> new (eto e)) [Edge 0 1 10, Edge 1 2 20, Edge 2 1 5]) \<and>
      ((\<forall>e \<in> set [Edge 0 1 10, Edge 1 2 20, Edge 2 1 5]. new (efrom e) \<noteq> new (eto e) \<longrightarrow>
          - 2147483648 \<le> eweight e - eweight (selected [Edge 0 1 10, Edge 1 2 20, Edge 2 1 5] [- 1, 2, 1] (eto e)) \<and>
          eweight e - eweight (selected [Edge 0 1 10, Edge 1 2 20, Edge 2 1 5] [- 1, 2, 1] (eto e)) < 2147483648) \<longrightarrow>
       [Edge 0 1 5] =
        map (\<lambda>e. Edge (new (efrom e)) (new (eto e))
               (eweight e - eweight (selected [Edge 0 1 10, Edge 1 2 20, Edge 2 1 5] [- 1, 2, 1] (eto e))))
          (filter (\<lambda>e. new (efrom e) \<noteq> new (eto e)) [Edge 0 1 10, Edge 1 2 20, Edge 2 1 5])) \<and>
      0 = new 0 \<and> [- 1, 0, 0 :: int] ! nat 0 = - 1)"
proof -
  have v: "valid_input 3 0 [Edge 0 1 10, Edge 1 2 20, Edge 2 1 5]" by (simp add: valid_input_def)
  have l: "3 \<le> int (length [- 1, - 1, - 1 :: int])" "3 \<le> int (length [0, 0, 0 :: int])" by simp_all
  have it: "iteration 3 0 [Edge 0 1 10, Edge 1 2 20, Edge 2 1 5] 0 [- 1, - 1, - 1] [- 1, - 1, - 1] [0, 0, 0] =
     Some (Ok (Continue 2 0 [Edge 0 1 5] 25 [- 1, 2, 1] [- 1, 0, 0] [2, 2, 2]))" by code_simp
  show ?thesis
    by (intro conjI v it) (rule contraction_step[OF v l(1) l(1) l(2) it])
qed





text \<open>
  C10: on every input that satisfies the preconditions no access leaves a vector: the
  call does not end in a failure. In the model \<^verbatim>\<open>edges[inEdge[x]]\<close> with
  \<^verbatim>\<open>inEdge[x] == -1\<close> is such a failure, so it is never evaluated.
\<close>

theorem accesses_in_bounds:
  assumes "valid_input n root edges"
  shows "(\<forall>e. chuLiuEdmonds n root edges \<noteq> Some (Failure e)) \<and>
         (\<forall>x (ie :: int list). 0 \<le> x \<and> x < int (length ie) \<and> ie ! nat x = - 1 \<longrightarrow>
            selected_from edges ie x = Failure OutOfBounds \<and>
            selected_weight edges ie x = Failure OutOfBounds)"
proof (intro conjI allI impI)
  fix e
  from run_returns[OF assms] obtain res where "chuLiuEdmonds_run n root edges = Some (Ok res)"
    by blast
  then show "chuLiuEdmonds n root edges \<noteq> Some (Failure e)"
    by (cases res) (simp add: chuLiuEdmonds_def)
next
  fix x and ie :: "int list" assume "0 \<le> x \<and> x < int (length ie) \<and> ie ! nat x = - 1"
  then show "selected_from edges ie x = Failure OutOfBounds"
    "selected_weight edges ie x = Failure OutOfBounds"
    by (simp_all add: selected_from_def selected_weight_def vec_at_def)
qed

theorem accesses_in_bounds_witness:
  "valid_input 4 0 [Edge 0 1 10, Edge 1 2 10, Edge 2 3 10, Edge 3 1 10, Edge 0 3 30] \<and>
   chuLiuEdmonds 4 0 [Edge 0 1 10, Edge 1 2 10, Edge 2 3 10, Edge 3 1 10, Edge 0 3 30]
     \<noteq> Some (Failure OutOfBounds) \<and>
   selected_from [Edge 0 1 10, Edge 1 2 10, Edge 2 3 10, Edge 3 1 10, Edge 0 3 30] [- 1, 0, 1, 2] 0
     = Failure OutOfBounds"
proof -
  have v: "valid_input 4 0 [Edge 0 1 10, Edge 1 2 10, Edge 2 3 10, Edge 3 1 10, Edge 0 3 30]"
    by (simp add: valid_input_def)
  from accesses_in_bounds[OF v] v show ?thesis by simp
qed

text \<open>
  C9: for every input with \<open>n = 1\<close> that satisfies the preconditions (so the root is \<open>0\<close>
  and every edge is a self-loop at \<open>0\<close>), \<^verbatim>\<open>chuLiuEdmonds\<close> returns \<open>0\<close>, whatever the
  edge list is; the caller's vector is left as it was.
\<close>

theorem single_vertex_returns_zero:
  assumes "valid_input 1 root edges"
  shows "chuLiuEdmonds 1 root edges = Some (Ok (0, edges))"
  by (simp add: chuLiuEdmonds_def single_vertex_run[OF assms])

theorem single_vertex_returns_zero_witness:
  "valid_input 1 0 [Edge 0 0 7, Edge 0 0 (- 3)] \<and>
   chuLiuEdmonds 1 0 [Edge 0 0 7, Edge 0 0 (- 3)] = Some (Ok (0, [Edge 0 0 7, Edge 0 0 (- 3)]))"
proof -
  have v: "valid_input 1 0 [Edge 0 0 7, Edge 0 0 (- 3)]" by (simp add: valid_input_def)
  from single_vertex_returns_zero[OF v] v show ?thesis by simp
qed

end
